theory Spec2Isabelle
  imports Complex_Main "HOL-Library.Multiset"
begin

section \<open>Inbox watcher (inbox\_monitor.py)\<close>

subsection \<open>Stability check: \<open>InboxHandler._is_file_complete\<close>\<close>

text \<open>
  The check issues four system calls: \<open>os.path.exists\<close>, \<open>os.path.getsize\<close>, (sleep),
  \<open>os.path.exists\<close>, \<open>os.path.getsize\<close>. Their outcomes are the input of the model.
  \<open>getsize\<close> raises \<open>OSError\<close> when the file vanished after the existence test; that
  outcome is \<open>None\<close>, and the enclosing \<open>except Exception\<close> turns it into \<open>False\<close>.
\<close>

record size_probes =
  exists_first :: bool
  getsize_first :: "nat option"
  exists_second :: bool
  getsize_second :: "nat option"

definition is_file_complete :: "size_probes \<Rightarrow> bool" where
  "is_file_complete pr =
     (if \<not> exists_first pr then False
      else case getsize_first pr of
             None \<Rightarrow> False
           | Some initial_size \<Rightarrow>
               if \<not> exists_second pr then False
               else case getsize_second pr of
                      None \<Rightarrow> False
                    | Some final_size \<Rightarrow> initial_size = final_size \<and> final_size > 0)"

subsection \<open>Event handler: \<open>InboxHandler.on_created\<close>\<close>

text \<open>\<open>os.path.splitext(p)[1]\<close> on a POSIX path: the extension starts at the last dot of
  the last path component, provided some character other than a dot precedes it there.\<close>

definition basename :: "string \<Rightarrow> string" where
  "basename p = rev (takeWhile (\<lambda>c. c \<noteq> CHR ''/'') (rev p))"

definition splitext_ext :: "string \<Rightarrow> string" where
  "splitext_ext p =
     (let b = dropWhile (\<lambda>c. c = CHR ''.'') (basename p)
      in if CHR ''.'' \<in> set b
         then CHR ''.'' # rev (takeWhile (\<lambda>c. c \<noteq> CHR ''.'') (rev b))
         else [])"

definition lower_char :: "char \<Rightarrow> char" where
  "lower_char c =
     (case map_of (zip ''ABCDEFGHIJKLMNOPQRSTUVWXYZ'' ''abcdefghijklmnopqrstuvwxyz'') c of
        None \<Rightarrow> c
      | Some l \<Rightarrow> l)"

definition lower :: "string \<Rightarrow> string" where
  "lower s = map lower_char s"

definition image_extension :: "string \<Rightarrow> bool" where
  "image_extension file_path =
     (lower (splitext_ext file_path) \<in> set [''.jpg'', ''.jpeg'', ''.png''])"

text \<open>
  What the processing callback does when it is invoked: it returns, it raises an
  \<open>Exception\<close> (caught by \<open>except Exception\<close>), or it raises something that is not an
  \<open>Exception\<close> (interpreter exit, keyboard interrupt), which the \<open>except\<close> clause lets
  through while the \<open>finally\<close> clause still runs.
\<close>

datatype callback_outcome = Returns | RaisesException | RaisesBaseException

datatype handled = Completed | Propagated

record event =
  is_directory :: bool
  src_path :: string

text \<open>The handler's state: the in-flight set \<open>self.processing\<close>, and the log of the
  paths the callback was invoked on, oldest first.\<close>

record handler =
  processing :: "string set"
  callback_calls :: "string list"

text \<open>
  The two sleeps and the stability probe between \<open>processing.add\<close> and the \<open>try\<close> block
  only delay the callback: \<open>_is_file_complete\<close> catches its own faults and its result
  selects nothing but an extra sleep. They are therefore no part of the transition.
\<close>

definition on_created :: "callback_outcome \<Rightarrow> event \<Rightarrow> handler \<Rightarrow> handled \<times> handler" where
  "on_created outcome ev h =
     (if is_directory ev then (Completed, h)
      else let file_path = src_path ev in
        if \<not> image_extension file_path then (Completed, h)
        else if file_path \<in> processing h then (Completed, h)
        else
          let h1 = h\<lparr>processing := insert file_path (processing h)\<rparr>;
              h2 = h1\<lparr>callback_calls := callback_calls h1 @ [file_path]\<rparr>;
              h3 = h2\<lparr>processing := processing h2 - {file_path}\<rparr>
          in case outcome of
               Returns \<Rightarrow> (Completed, h3)
             | RaisesException \<Rightarrow> (Completed, h3)
             | RaisesBaseException \<Rightarrow> (Propagated, h3))"

section \<open>Matching (face\_processor.py)\<close>

text \<open>
  Faults of the Python code are values: a function that can raise returns
  \<open>py_error + 'a\<close>, with \<open>Inl\<close> for the exception.
\<close>

datatype py_error = ZeroDivisionError | IndexError | ValueError | IntegrityError | OSError

text \<open>
  Embeddings are lists of numbers and a similarity is their dot product. The model computes
  over the reals: sums, products and the division of the mean are exact, where the code
  rounds to double precision. A gallery entry is the tuple \<open>(img_id, name, nickname,
  embedding)\<close> that \<open>get_all_embeddings\<close> returns.
\<close>

type_synonym gallery_entry = "nat \<times> string \<times> string option \<times> real list"
type_synonym person_entry = "string \<times> ((real \<times> nat) list \<times> string option)"
type_synonym match = "nat \<times> string \<times> string option \<times> real"

definition dot :: "real list \<Rightarrow> real list \<Rightarrow> real" where
  "dot a b = sum_list (map2 (*) a b)"

definition compare_faces :: "real list \<Rightarrow> real list \<Rightarrow> real" where
  "compare_faces embedding1 embedding2 =
     (if length embedding1 \<noteq> length embedding2 then 0 else dot embedding1 embedding2)"

text \<open>
  \<open>person_data\<close> is a dictionary keyed by the person's name; Python dictionaries keep
  the order of first insertion, which is the order the second loop visits, so it is an
  association list here. \<open>add_score\<close> is the body of the first loop: create the entry on
  first sight (with that entry's nickname), then append the score.
\<close>

fun add_score :: "string \<Rightarrow> string option \<Rightarrow> real \<times> nat \<Rightarrow> person_entry list \<Rightarrow> person_entry list" where
  "add_score name nickname sc [] = [(name, ([sc], nickname))]"
| "add_score name nickname sc ((n, (scores, nn)) # rest) =
     (if n = name then (n, (scores @ [sc], nn)) # rest
      else (n, (scores, nn)) # add_score name nickname sc rest)"

fun group_scores :: "real list \<Rightarrow> gallery_entry list \<Rightarrow> person_entry list \<Rightarrow> person_entry list" where
  "group_scores test_embedding [] person_data = person_data"
| "group_scores test_embedding ((img_id, name, nickname, db_embedding) # rest) person_data =
     (if length db_embedding \<noteq> length test_embedding
      then group_scores test_embedding rest person_data
      else group_scores test_embedding rest
             (add_score name nickname (compare_faces test_embedding db_embedding, img_id) person_data))"

text \<open>
  \<open>sorted(xs, key=lambda x: x[0], reverse=True)\<close>: a stable sort in descending order of
  the key, where equal keys keep their original order; this is the stable ascending sort of
  the reversed list, reversed. \<open>xs[:k]\<close> takes the first \<open>k\<close> elements, and for a
  negative \<open>k\<close> all but the last \<open>-k\<close>.
\<close>

definition sorted_desc :: "(real \<times> nat) list \<Rightarrow> (real \<times> nat) list" where
  "sorted_desc xs = rev (sort_key fst (rev xs))"

definition slice_to :: "'a list \<Rightarrow> int \<Rightarrow> 'a list" where
  "slice_to xs k = (if 0 \<le> k then take (nat k) xs else take (nat (int (length xs) + k)) xs)"

text \<open>
  The body of the second loop for one person: the representative image id and the final
  score. Averaging an empty \<open>top_scores\<close> divides by zero; indexing an empty
  \<open>sorted_scores\<close> raises \<open>IndexError\<close>.
\<close>

definition final_score :: "int \<Rightarrow> (real \<times> nat) list \<Rightarrow> py_error + (nat \<times> real)" where
  "final_score top_k scores_with_ids =
     (let sorted_scores = sorted_desc scores_with_ids in
      if top_k \<le> int (length scores_with_ids) then
        (let top_scores = slice_to sorted_scores top_k in
         case top_scores of
           [] \<Rightarrow> Inl ZeroDivisionError
         | best # _ \<Rightarrow> Inr (snd best, sum_list (map fst top_scores) / real (length top_scores)))
      else
        (case sorted_scores of
           [] \<Rightarrow> Inl IndexError
         | best # _ \<Rightarrow> Inr (snd best, fst best)))"

fun best_over :: "int \<Rightarrow> person_entry list \<Rightarrow> real \<Rightarrow> match option \<Rightarrow> py_error + match option" where
  "best_over top_k [] best_score best_match = Inr best_match"
| "best_over top_k ((person_name, (scores_with_ids, nickname)) # rest) best_score best_match =
     (case final_score top_k scores_with_ids of
        Inl e \<Rightarrow> Inl e
      | Inr (best_img_id, fs) \<Rightarrow>
          if fs > best_score
          then best_over top_k rest fs (Some (best_img_id, person_name, nickname, fs))
          else best_over top_k rest best_score best_match)"

definition find_match :: "real list \<Rightarrow> gallery_entry list \<Rightarrow> real \<Rightarrow> int \<Rightarrow> py_error + match option" where
  "find_match test_embedding database_embeddings threshold top_k =
     best_over top_k (group_scores test_embedding database_embeddings []) threshold None"

text \<open>
  Vocabulary of the statements about matching. \<open>surviving\<close> lists, in gallery order, the
  (similarity, image id) pairs of one person's entries whose dimension equals the probe's;
  \<open>top_mean k\<close> is the arithmetic mean of the \<open>k\<close> highest scores.
\<close>

definition same_dimension :: "real list \<Rightarrow> gallery_entry \<Rightarrow> bool" where
  "same_dimension test_embedding entry =
     (case entry of (img_id, name, nickname, db_embedding) \<Rightarrow>
        length db_embedding = length test_embedding)"

definition surviving :: "real list \<Rightarrow> gallery_entry list \<Rightarrow> string \<Rightarrow> (real \<times> nat) list" where
  "surviving test_embedding gallery person_name =
     map (\<lambda>(img_id, name, nickname, db_embedding). (dot test_embedding db_embedding, img_id))
       (filter (\<lambda>(img_id, name, nickname, db_embedding).
                  name = person_name \<and> length db_embedding = length test_embedding) gallery)"

definition top_mean :: "nat \<Rightarrow> real list \<Rightarrow> real" where
  "top_mean k scores = sum_list (take k (rev (sort scores))) / real k"

text \<open>The scores that \<open>person_data\<close> holds under a name (none for a missing key).\<close>

definition scores_of :: "person_entry list \<Rightarrow> string \<Rightarrow> (real \<times> nat) list" where
  "scores_of pd name = (case map_of pd name of None \<Rightarrow> [] | Some (s, nn) \<Rightarrow> s)"

section \<open>Store (database.py)\<close>

text \<open>
  The three tables as lists of rows in rowid order, the settings table as an association
  list, and the part of the file system the store's operations touch: the set of paths
  of existing files. Removing a file can fail (\<open>os.remove\<close> raises \<open>OSError\<close>), which
  the code catches in every place it removes a file; \<open>undeletable\<close> is the set of paths
  for which it fails. Timestamps (\<open>CURRENT_TIMESTAMP\<close>) are natural numbers; the time of
  an insertion is an argument of the operation that inserts. The counters are SQLite's
  \<open>sqlite_sequence\<close> entries of the two \<open>AUTOINCREMENT\<close> tables.

  Directories are not modelled: \<open>os.makedirs\<close>, \<open>_cleanup_empty_person_folders\<close> and
  the \<open>shutil.rmtree\<close> calls of \<open>delete_person\<close> are left out, and so is every
  failure of the database engine itself.
\<close>

record person =
  p_id :: nat
  p_name :: string
  p_nickname :: "string option"
  p_created_at :: nat

record face_image =
  fi_id :: nat
  fi_person_id :: nat
  fi_image_path :: string
  fi_original_image_path :: "string option"
  fi_embedding :: "real list"
  fi_created_at :: nat

record history_record =
  h_id :: nat
  h_person_id :: "nat option"
  h_person_name :: "string option"
  h_nickname :: "string option"
  h_score :: real
  h_image_path :: "string option"
  h_thumbnail_path :: "string option"
  h_bbox_info :: "string option"
  h_timestamp :: nat
  h_trained_image_id :: "nat option"

record store =
  persons :: "person list"
  face_images :: "face_image list"
  recognition_history :: "history_record list"
  settings :: "(string \<times> string) list"
  face_images_seq :: nat
  recognition_history_seq :: nat
  files :: "string set"
  undeletable :: "string set"

text \<open>
  \<open>_safe_delete_file\<close> returns \<open>True\<close> for an empty or missing path and for a file that
  does not exist, removes the file otherwise, and returns \<open>False\<close> when the removal
  raises. \<open>remove_if_exists\<close> is the inline variant in \<open>add_recognition_history\<close>:
  test, \<open>try: os.remove\<close>, \<open>except\<close>: print.
\<close>

definition os_remove :: "string \<Rightarrow> store \<Rightarrow> py_error + store" where
  "os_remove p s =
     (if p \<notin> files s \<or> p \<in> undeletable s then Inl OSError
      else Inr (s\<lparr>files := files s - {p}\<rparr>))"

definition safe_delete_file :: "string option \<Rightarrow> store \<Rightarrow> bool \<times> store" where
  "safe_delete_file file_path s =
     (case file_path of
        None \<Rightarrow> (True, s)
      | Some p \<Rightarrow>
          if p = [] then (True, s)
          else if p \<notin> files s then (True, s)
          else (case os_remove p s of
                  Inr s' \<Rightarrow> (True, s')
                | Inl e \<Rightarrow> (False, s)))"

definition remove_if_exists :: "string option \<Rightarrow> store \<Rightarrow> store" where
  "remove_if_exists path s =
     (case path of
        None \<Rightarrow> s
      | Some p \<Rightarrow>
          if p \<noteq> [] \<and> p \<in> files s
          then (case os_remove p s of Inr s' \<Rightarrow> s' | Inl e \<Rightarrow> s)
          else s)"

text \<open>
  SQL as used by the code. An \<open>AUTOINCREMENT\<close> key is one more than the largest rowid
  the table ever held. With \<open>PRAGMA foreign_keys = ON\<close>, deleting \<open>face_images\<close> rows
  sets \<open>recognition_history.trained_image_id\<close> to \<open>NULL\<close> where it refers to them;
  deleting a person deletes the person's \<open>face_images\<close> rows (cascade) and sets
  \<open>recognition_history.person_id\<close> to \<open>NULL\<close>; an insert that refers to a missing row
  raises \<open>IntegrityError\<close>.
\<close>

definition next_rowid :: "nat \<Rightarrow> nat list \<Rightarrow> nat" where
  "next_rowid seq ids = Suc (fold max ids seq)"

definition sql_delete_face_images :: "(face_image \<Rightarrow> bool) \<Rightarrow> store \<Rightarrow> store" where
  "sql_delete_face_images cond s =
     (let gone = map fi_id (filter cond (face_images s))
      in s\<lparr>face_images := filter (\<lambda>fi. \<not> cond fi) (face_images s),
           recognition_history :=
             map (\<lambda>h. case h_trained_image_id h of
                         None \<Rightarrow> h
                       | Some t \<Rightarrow> if t \<in> set gone then h\<lparr>h_trained_image_id := None\<rparr> else h)
               (recognition_history s)\<rparr>)"

definition sql_delete_person :: "nat \<Rightarrow> store \<Rightarrow> store" where
  "sql_delete_person person_id s =
     (if person_id \<in> set (map p_id (persons s))
      then (let s1 = sql_delete_face_images (\<lambda>fi. fi_person_id fi = person_id) s
            in s1\<lparr>persons := filter (\<lambda>p. p_id p \<noteq> person_id) (persons s1),
                  recognition_history :=
                    map (\<lambda>h. if h_person_id h = Some person_id
                              then h\<lparr>h_person_id := None\<rparr> else h)
                      (recognition_history s1)\<rparr>)
      else s)"

text \<open>
  \<open>int(self.get_setting('max_images_per_person') or 10)\<close>: a missing row and the empty
  string give 10. \<open>py_int\<close> reads an optional sign and decimal digits, which is how the
  application writes the setting (\<open>str(new_max)\<close>); anything else is a \<open>ValueError\<close>
  here (Python also accepts surrounding blanks and underscores between digits).
\<close>

definition get_setting :: "string \<Rightarrow> store \<Rightarrow> string option" where
  "get_setting key s = map_of (settings s) key"

definition digit_value :: "char \<Rightarrow> nat option" where
  "digit_value c = map_of (zip ''0123456789'' [0, 1, 2, 3, 4, 5, 6, 7, 8, 9]) c"

fun digits_value :: "nat \<Rightarrow> string \<Rightarrow> nat option" where
  "digits_value acc [] = Some acc"
| "digits_value acc (c # cs) =
     (case digit_value c of
        None \<Rightarrow> None
      | Some d \<Rightarrow> digits_value (10 * acc + d) cs)"

definition py_int :: "string \<Rightarrow> py_error + int" where
  "py_int v =
     (case v of
        [] \<Rightarrow> Inl ValueError
      | c # cs \<Rightarrow>
          if c = CHR ''-'' \<or> c = CHR ''+'' then
            (if cs = [] then Inl ValueError
             else case digits_value 0 cs of
                    None \<Rightarrow> Inl ValueError
                  | Some n \<Rightarrow> Inr (if c = CHR ''-'' then - int n else int n))
          else (case digits_value 0 v of
                  None \<Rightarrow> Inl ValueError
                | Some n \<Rightarrow> Inr (int n)))"

definition max_images_per_person :: "store \<Rightarrow> py_error + int" where
  "max_images_per_person s =
     (case get_setting ''max_images_per_person'' s of
        None \<Rightarrow> Inr 10
      | Some v \<Rightarrow> if v = [] then Inr 10 else py_int v)"

text \<open>
  \<open>ORDER BY created_at ASC LIMIT 1\<close> is the head of the stable sort of the person's
  rows by \<open>created_at\<close>: among rows of equal time the one of lowest rowid comes first.
\<close>

definition person_images :: "nat \<Rightarrow> store \<Rightarrow> face_image list" where
  "person_images person_id s = filter (\<lambda>fi. fi_person_id fi = person_id) (face_images s)"

definition get_face_count :: "nat \<Rightarrow> store \<Rightarrow> nat" where
  "get_face_count person_id s = length (person_images person_id s)"

definition get_oldest_face_image :: "nat \<Rightarrow> store \<Rightarrow> face_image option" where
  "get_oldest_face_image person_id s =
     (case sort_key fi_created_at (person_images person_id s) of
        [] \<Rightarrow> None
      | oldest # _ \<Rightarrow> Some oldest)"

definition add_face_image ::
  "nat \<Rightarrow> string \<Rightarrow> real list \<Rightarrow> string option \<Rightarrow> nat \<Rightarrow> store \<Rightarrow> py_error + (nat \<times> store)" where
  "add_face_image person_id image_path embedding original_image_path now s =
     (if person_id \<notin> set (map p_id (persons s)) then Inl IntegrityError
      else
        let image_id = next_rowid (face_images_seq s) (map fi_id (face_images s))
        in Inr (image_id,
                s\<lparr>face_images := face_images s @
                      [\<lparr>fi_id = image_id, fi_person_id = person_id, fi_image_path = image_path,
                        fi_original_image_path = original_image_path,
                        fi_embedding = embedding, fi_created_at = now\<rparr>],
                   face_images_seq := image_id\<rparr>))"

definition delete_face_image :: "nat \<Rightarrow> store \<Rightarrow> store" where
  "delete_face_image image_id s =
     (let img = find (\<lambda>fi. fi_id fi = image_id \<and> fi_person_id fi \<in> set (map p_id (persons s)))
                    (face_images s);
          s1 = (case img of
                  None \<Rightarrow> s
                | Some fi \<Rightarrow>
                    snd (safe_delete_file (fi_original_image_path fi)
                          (snd (safe_delete_file (Some (fi_image_path fi)) s))));
          s2 = s1\<lparr>recognition_history :=
                    map (\<lambda>h. if h_trained_image_id h = Some image_id
                              then h\<lparr>h_trained_image_id := None\<rparr> else h)
                      (recognition_history s1)\<rparr>
      in sql_delete_face_images (\<lambda>fi. fi_id fi = image_id) s2)"

text \<open>
  Enrollment. What \<open>cv2.imwrite\<close> and \<open>shutil.copy\<close> do is an input: \<open>imwrite_ok\<close>
  is the value \<open>imwrite\<close> returns, \<open>copy_ok\<close> is false when \<open>copy\<close> raises. A write
  that succeeds creates the file; one that fails leaves none. The image data and the
  source path of the copy do not appear. \<open>save_face_image\<close> is the helper of app.py,
  with the file name it computes (\<open>secure_filename\<close>) as an argument.
  \<open>evict_if_full\<close> is the quota block at the head of \<open>auto_train_face\<close>.
\<close>

record write_outcomes =
  imwrite_ok :: bool
  copy_ok :: bool

definition face_save_path :: "string \<Rightarrow> string \<Rightarrow> string" where
  "face_save_path person_name timestamp =
     ''static/detect/'' @ person_name @ ''/'' @ person_name @ ''_'' @ timestamp @ ''.jpg''"

definition original_save_path :: "string \<Rightarrow> string \<Rightarrow> string" where
  "original_save_path person_name timestamp =
     ''static/original/'' @ person_name @ ''/'' @ person_name @ ''_'' @ timestamp @ ''.jpg''"

definition evict_if_full :: "nat \<Rightarrow> int \<Rightarrow> store \<Rightarrow> store" where
  "evict_if_full person_id max_images s =
     (if max_images \<le> int (get_face_count person_id s)
      then (case get_oldest_face_image person_id s of
              None \<Rightarrow> s
            | Some oldest_image \<Rightarrow> delete_face_image (fi_id oldest_image) s)
      else s)"

definition auto_train_face ::
  "nat \<Rightarrow> string \<Rightarrow> real list \<Rightarrow> string \<Rightarrow> write_outcomes \<Rightarrow> nat \<Rightarrow> store
     \<Rightarrow> (py_error + nat option) \<times> store" where
  "auto_train_face person_id person_name embedding timestamp io now s =
     (case max_images_per_person s of
        Inl err \<Rightarrow> (Inl err, s)
      | Inr max_images \<Rightarrow>
          let s1 = evict_if_full person_id max_images s;
              cropped = face_save_path person_name timestamp
          in if \<not> imwrite_ok io then (Inr None, s1)
             else
               let s2 = s1\<lparr>files := insert cropped (files s1)\<rparr>;
                   original = original_save_path person_name timestamp
               in if \<not> copy_ok io
                  then (Inr None, snd (safe_delete_file (Some cropped) s2))
                  else
                    let s3 = s2\<lparr>files := insert original (files s2)\<rparr>
                    in (case add_face_image person_id cropped embedding (Some original) now s3 of
                          Inl err \<Rightarrow> (Inl err, s3)
                        | Inr (image_id, s4) \<Rightarrow> (Inr (Some image_id), s4)))"

definition save_face_image ::
  "nat \<Rightarrow> string \<Rightarrow> string \<Rightarrow> real list \<Rightarrow> write_outcomes \<Rightarrow> nat \<Rightarrow> store
     \<Rightarrow> (py_error + nat option) \<times> store" where
  "save_face_image person_id person_name filename embedding io now s =
     (let face_path = ''static/detect/'' @ person_name @ ''/'' @ filename
      in if \<not> imwrite_ok io then (Inr None, s)
         else
           let s1 = s\<lparr>files := insert face_path (files s)\<rparr>;
               original_path = ''static/original/'' @ person_name @ ''/'' @ filename
           in if \<not> copy_ok io
              then (if face_path \<in> files s1
                    then (case os_remove face_path s1 of
                            Inl err \<Rightarrow> (Inl err, s1)
                          | Inr s2 \<Rightarrow> (Inr None, s2))
                    else (Inr None, s1))
              else
                let s2 = s1\<lparr>files := insert original_path (files s1)\<rparr>
                in (case add_face_image person_id face_path embedding (Some original_path) now s2 of
                      Inl err \<Rightarrow> (Inl err, s2)
                    | Inr (image_id, s3) \<Rightarrow> (Inr (Some image_id), s3)))"

text \<open>A run of enrollments for one person, each of which returns an image id.\<close>

record enrollment =
  e_embedding :: "real list"
  e_timestamp :: string
  e_io :: write_outcomes
  e_now :: nat

fun auto_train_all :: "nat \<Rightarrow> string \<Rightarrow> enrollment list \<Rightarrow> store \<Rightarrow> store option" where
  "auto_train_all person_id person_name [] s = Some s"
| "auto_train_all person_id person_name (e # es) s =
     (case auto_train_face person_id person_name (e_embedding e) (e_timestamp e) (e_io e)
             (e_now e) s of
        (Inr (Some image_id), s') \<Rightarrow> auto_train_all person_id person_name es s'
      | _ \<Rightarrow> None)"

text \<open>
  The history ledger. \<open>history_entry\<close> bundles the arguments of
  \<open>add_recognition_history\<close> other than \<open>max_records\<close>, and the time of the insert.
  \<open>ORDER BY timestamp ASC LIMIT n\<close> is the first \<open>n\<close> rows of the stable sort by
  timestamp; the \<open>SELECT\<close> and the \<open>DELETE\<close> of the code use the same query.
\<close>

record history_entry =
  n_person_id :: "nat option"
  n_person_name :: string
  n_nickname :: "string option"
  n_score :: real
  n_image_path :: string
  n_thumbnail_path :: string
  n_trained_image_id :: "nat option"
  n_bbox_info :: "string option"
  n_now :: nat

definition oldest_history :: "nat \<Rightarrow> history_record list \<Rightarrow> history_record list" where
  "oldest_history n rows = take n (sort_key h_timestamp rows)"

definition remove_media :: "history_record list \<Rightarrow> store \<Rightarrow> store" where
  "remove_media old_records s =
     foldl (\<lambda>s' r. remove_if_exists (h_thumbnail_path r) (remove_if_exists (h_image_path r) s'))
       s old_records"

definition add_recognition_history ::
  "history_entry \<Rightarrow> int \<Rightarrow> store \<Rightarrow> py_error + (nat \<times> store)" where
  "add_recognition_history e max_records s =
     (if (case n_person_id e of None \<Rightarrow> False
          | Some pid \<Rightarrow> pid \<notin> set (map p_id (persons s)))
         \<or> (case n_trained_image_id e of None \<Rightarrow> False
             | Some t \<Rightarrow> t \<notin> set (map fi_id (face_images s)))
      then Inl IntegrityError
      else
        let history_id = next_rowid (recognition_history_seq s) (map h_id (recognition_history s));
            row = \<lparr>h_id = history_id, h_person_id = n_person_id e,
                   h_person_name = Some (n_person_name e), h_nickname = n_nickname e,
                   h_score = n_score e, h_image_path = Some (n_image_path e),
                   h_thumbnail_path = Some (n_thumbnail_path e), h_bbox_info = n_bbox_info e,
                   h_timestamp = n_now e, h_trained_image_id = n_trained_image_id e\<rparr>;
            s1 = s\<lparr>recognition_history := recognition_history s @ [row],
                   recognition_history_seq := history_id\<rparr>;
            count = int (length (recognition_history s1))
        in if count > max_records then
             let old_records = oldest_history (nat (count - max_records)) (recognition_history s1);
                 s2 = remove_media old_records s1
             in Inr (history_id,
                     s2\<lparr>recognition_history :=
                           filter (\<lambda>h. h_id h \<notin> set (map h_id old_records))
                             (recognition_history s2)\<rparr>)
           else Inr (history_id, s1))"

definition undo_recognition :: "nat \<Rightarrow> store \<Rightarrow> store" where
  "undo_recognition history_id s =
     (case find (\<lambda>h. h_id h = history_id) (recognition_history s) of
        None \<Rightarrow> s
      | Some row \<Rightarrow>
          let s1 = (case h_trained_image_id row of
                      None \<Rightarrow> s
                    | Some t \<Rightarrow>
                        if t = 0 then s
                        else
                          let s' = (case find (\<lambda>fi. fi_id fi = t) (face_images s) of
                                      None \<Rightarrow> s
                                    | Some face_img \<Rightarrow>
                                        snd (safe_delete_file (Some (fi_image_path face_img)) s))
                          in sql_delete_face_images (\<lambda>fi. fi_id fi = t) s');
              s2 = snd (safe_delete_file (h_image_path row) s1);
              s3 = snd (safe_delete_file (h_thumbnail_path row) s2)
          in s3\<lparr>recognition_history :=
                  filter (\<lambda>h. h_id h \<noteq> history_id) (recognition_history s3)\<rparr>)"

definition delete_person :: "nat \<Rightarrow> store \<Rightarrow> store" where
  "delete_person person_id s =
     (let images = filter (\<lambda>fi. fi_person_id fi = person_id) (face_images s);
          s1 = foldl (\<lambda>s' img. snd (safe_delete_file (fi_original_image_path img)
                                   (snd (safe_delete_file (Some (fi_image_path img)) s'))))
                 s images;
          s2 = s1\<lparr>recognition_history :=
                    map (\<lambda>h. if h_person_id h = Some person_id
                              then h\<lparr>h_person_id := None, h_person_name := Some ''Unknown'',
                                     h_nickname := None, h_score := 0\<rparr>
                              else h)
                      (recognition_history s1)\<rparr>
      in sql_delete_person person_id s2)"

text \<open>
  Vocabulary of the statement about \<open>delete_person\<close>: how a history row \<open>h\<close> and the
  same row \<open>h'\<close> after the deletion of person \<open>person_id\<close> are related.
\<close>

definition unlinked :: "nat \<Rightarrow> history_record \<Rightarrow> history_record \<Rightarrow> bool" where
  "unlinked person_id h h' =
     (h_id h' = h_id h \<and> h_image_path h' = h_image_path h
      \<and> h_thumbnail_path h' = h_thumbnail_path h \<and> h_bbox_info h' = h_bbox_info h
      \<and> h_timestamp h' = h_timestamp h
      \<and> (h_trained_image_id h' = None \<or> h_trained_image_id h' = h_trained_image_id h)
      \<and> (if h_person_id h = Some person_id
          then h_person_id h' = None \<and> h_person_name h' = Some ''Unknown''
               \<and> h_nickname h' = None \<and> h_score h' = 0
          else h_person_id h' = h_person_id h \<and> h_person_name h' = h_person_name h
               \<and> h_nickname h' = h_nickname h \<and> h_score h' = h_score h))"

text \<open>
  Vocabulary of the statement about the quota: the row that a successful enrollment
  \<open>e\<close> of person \<open>person_id\<close> creates.
\<close>

definition enrolled_as :: "nat \<Rightarrow> string \<Rightarrow> enrollment \<Rightarrow> face_image \<Rightarrow> bool" where
  "enrolled_as person_id person_name e fi =
     (fi_person_id fi = person_id
      \<and> fi_image_path fi = face_save_path person_name (e_timestamp e)
      \<and> fi_original_image_path fi = Some (original_save_path person_name (e_timestamp e))
      \<and> fi_embedding fi = e_embedding e
      \<and> fi_created_at fi = e_now e)"

text \<open>A run of appends to the history, each of which returns.\<close>

fun add_all_history :: "history_entry list \<Rightarrow> int \<Rightarrow> store \<Rightarrow> py_error + store" where
  "add_all_history [] max_records s = Inr s"
| "add_all_history (e # es) max_records s =
     (case add_recognition_history e max_records s of
        Inl err \<Rightarrow> Inl err
      | Inr (history_id, s') \<Rightarrow> add_all_history es max_records s')"

text \<open>
  Vocabulary of the statement about the history ceiling: the row that an append of
  entry \<open>e\<close> inserts, and what removing a row's media files achieves. A file is gone
  when it no longer exists; the removal is skipped for an empty path and fails for an
  undeletable file, which then stays.
\<close>

definition recorded_as :: "history_entry \<Rightarrow> history_record \<Rightarrow> bool" where
  "recorded_as e h =
     (h_person_id h = n_person_id e \<and> h_person_name h = Some (n_person_name e)
      \<and> h_nickname h = n_nickname e \<and> h_score h = n_score e
      \<and> h_image_path h = Some (n_image_path e)
      \<and> h_thumbnail_path h = Some (n_thumbnail_path e)
      \<and> h_bbox_info h = n_bbox_info e \<and> h_timestamp h = n_now e
      \<and> h_trained_image_id h = n_trained_image_id e)"

definition file_gone :: "string option \<Rightarrow> store \<Rightarrow> bool" where
  "file_gone path s =
     (case path of
        None \<Rightarrow> True
      | Some p \<Rightarrow> p = [] \<or> p \<in> undeletable s \<or> p \<notin> files s)"

definition media_gone :: "history_record \<Rightarrow> store \<Rightarrow> bool" where
  "media_gone h s = (file_gone (h_image_path h) s \<and> file_gone (h_thumbnail_path h) s)"

section \<open>Example data\<close>

definition example_gallery :: "gallery_entry list" where
  "example_gallery =
     [(1, ''A'', Some ''Ann'', [9/10, 0, 0]), (2, ''A'', Some ''Ann'', [8/10, 0, 0]),
      (3, ''B'', None, [0, 1, 0]), (4, ''A'', Some ''Ann'', [7/10, 0, 0]),
      (5, ''A'', Some ''Ann'', [6/10, 0, 0]), (6, ''A'', Some ''Ann'', [5/10, 0, 0]),
      (7, ''B'', None, [100, 100])]"


definition alice :: person where
  "alice = \<lparr>p_id = 1, p_name = ''alice'', p_nickname = Some ''Al'', p_created_at = 100\<rparr>"

definition alice_sample :: face_image where
  "alice_sample = \<lparr>fi_id = 1, fi_person_id = 1,
     fi_image_path = ''static/detect/alice/alice_t1.jpg'',
     fi_original_image_path = Some ''static/original/alice/alice_t1.jpg'',
     fi_embedding = [1, 0, 0], fi_created_at = 110\<rparr>"

definition alice_seen :: history_record where
  "alice_seen = \<lparr>h_id = 1, h_person_id = Some 1, h_person_name = Some ''alice'',
     h_nickname = Some ''Al'', h_score = 9/10,
     h_image_path = Some ''static/logs/log_t1.jpg'',
     h_thumbnail_path = Some ''static/logs/thumb_t1.jpg'', h_bbox_info = None,
     h_timestamp = 110, h_trained_image_id = Some 1\<rparr>"

definition small_store :: store where
  "small_store = \<lparr>persons = [alice], face_images = [alice_sample],
     recognition_history = [alice_seen],
     settings = [(''max_images_per_person'', ''2'')],
     face_images_seq = 1, recognition_history_seq = 1,
     files = {''static/detect/alice/alice_t1.jpg'', ''static/original/alice/alice_t1.jpg'',
              ''static/logs/log_t1.jpg'', ''static/logs/thumb_t1.jpg''},
     undeletable = {}\<rparr>"


definition locked_store :: store where
  "locked_store = small_store\<lparr>undeletable := {''static/detect/alice/alice_t2.jpg''}\<rparr>"

definition all_ok :: write_outcomes where
  "all_ok = \<lparr>imwrite_ok = True, copy_ok = True\<rparr>"

definition copy_fails :: write_outcomes where
  "copy_fails = \<lparr>imwrite_ok = True, copy_ok = False\<rparr>"

definition three_enrollments :: "enrollment list" where
  "three_enrollments =
     [\<lparr>e_embedding = [1, 0, 0], e_timestamp = ''t2'', e_io = all_ok, e_now = 120\<rparr>,
      \<lparr>e_embedding = [0, 1, 0], e_timestamp = ''t3'', e_io = all_ok, e_now = 130\<rparr>,
      \<lparr>e_embedding = [0, 0, 1], e_timestamp = ''t4'', e_io = all_ok, e_now = 140\<rparr>]"

definition full_store :: store where
  "full_store = small_store\<lparr>settings := [(''max_images_per_person'', ''1'')]\<rparr>"

definition second_sighting :: history_entry where
  "second_sighting = \<lparr>n_person_id = Some 1, n_person_name = ''alice'', n_nickname = Some ''Al'',
     n_score = 8/10, n_image_path = ''static/logs/log_t2.jpg'',
     n_thumbnail_path = ''static/logs/thumb_t2.jpg'', n_trained_image_id = None,
     n_bbox_info = None, n_now = 120\<rparr>"

definition third_sighting :: history_entry where
  "third_sighting = \<lparr>n_person_id = None, n_person_name = ''Unknown'', n_nickname = None,
     n_score = 0, n_image_path = ''static/logs/log_t3.jpg'',
     n_thumbnail_path = ''static/logs/thumb_t3.jpg'', n_trained_image_id = None,
     n_bbox_info = None, n_now = 130\<rparr>"

definition locked_log_store :: store where
  "locked_log_store = small_store\<lparr>undeletable := {''static/logs/log_t1.jpg''}\<rparr>"

definition alice_sample_2 :: face_image where
  "alice_sample_2 = \<lparr>fi_id = 2, fi_person_id = 1,
     fi_image_path = ''static/detect/alice/alice_t1b.jpg'',
     fi_original_image_path = Some ''static/original/alice/alice_t1b.jpg'',
     fi_embedding = [0, 1, 0], fi_created_at = 115\<rparr>"

definition over_quota_store :: store where
  "over_quota_store = full_store\<lparr>face_images := [alice_sample, alice_sample_2],
     face_images_seq := 2\<rparr>"

definition zero_quota_store :: store where
  "zero_quota_store = small_store\<lparr>settings := [(''max_images_per_person'', ''0'')]\<rparr>"

section \<open>Theorems: inbox watcher\<close>

subsection \<open>Stability check\<close>

text \<open>
  Claim C6. The stability check returns true if and only if the file exists at both
  probes, the two sizes read are equal, and that size is strictly positive. In
  particular a file whose size differs between the two reads is unstable, and so is a
  zero-byte file.
\<close>

theorem is_file_complete_iff:
  "(is_file_complete pr \<longleftrightarrow>
      exists_first pr \<and> exists_second pr \<and>
      (\<exists>n. getsize_first pr = Some n \<and> getsize_second pr = Some n \<and> 0 < n))
   \<and> (getsize_first pr \<noteq> getsize_second pr \<longrightarrow> \<not> is_file_complete pr)
   \<and> (getsize_second pr = Some 0 \<longrightarrow> \<not> is_file_complete pr)"
  by (auto simp: is_file_complete_def split: option.splits)

theorem is_file_complete_witness:
  "is_file_complete \<lparr>exists_first = True, getsize_first = Some 2048,
                      exists_second = True, getsize_second = Some 2048\<rparr>
   \<and> \<not> is_file_complete \<lparr>exists_first = True, getsize_first = Some 1024,
                          exists_second = True, getsize_second = Some 2048\<rparr>
   \<and> \<not> is_file_complete \<lparr>exists_first = True, getsize_first = Some 0,
                          exists_second = True, getsize_second = Some 0\<rparr>"
  using is_file_complete_iff [of "\<lparr>exists_first = True, getsize_first = Some 2048,
                      exists_second = True, getsize_second = Some 2048\<rparr>"]
    is_file_complete_iff [of "\<lparr>exists_first = True, getsize_first = Some 1024,
                          exists_second = True, getsize_second = Some 2048\<rparr>"]
    is_file_complete_iff [of "\<lparr>exists_first = True, getsize_first = Some 0,
                          exists_second = True, getsize_second = Some 0\<rparr>"]
  by simp

subsection \<open>In-flight set\<close>

lemma image_extension_jpg: "image_extension ''./inbox/a.JPG''"
  by (simp add: image_extension_def splitext_ext_def basename_def lower_def lower_char_def)

text \<open>
  Claim C5. When the watcher handles a creation event (a file with an image extension
  whose path is not already in flight), the callback is invoked once and the path is out
  of the in-flight set afterwards whatever the callback did; the in-flight set is as it
  was before the event. A fault of class \<open>Exception\<close> raised by the callback, like a
  normal return, lets the handler complete, so the watcher goes on. A later creation
  event for the same path is handled again: the callback is invoked a second time.
\<close>

theorem on_created_clears_in_flight:
  assumes "\<not> is_directory ev"
    and "image_extension (src_path ev)"
    and "src_path ev \<notin> processing h"
  shows "src_path ev \<notin> processing (snd (on_created outcome ev h))
     \<and> processing (snd (on_created outcome ev h)) = processing h
     \<and> callback_calls (snd (on_created outcome ev h)) = callback_calls h @ [src_path ev]
     \<and> fst (on_created RaisesException ev h) = Completed
     \<and> fst (on_created Returns ev h) = Completed
     \<and> callback_calls (snd (on_created outcome' ev (snd (on_created outcome ev h))))
         = callback_calls h @ [src_path ev, src_path ev]
     \<and> src_path ev \<notin> processing (snd (on_created outcome' ev (snd (on_created outcome ev h))))"
  using assms
  by (cases outcome; cases outcome') (auto simp: on_created_def Let_def)

theorem on_created_clears_in_flight_witness:
  "''./inbox/a.JPG'' \<notin> processing (snd (on_created RaisesException
        \<lparr>is_directory = False, src_path = ''./inbox/a.JPG''\<rparr>
        \<lparr>processing = {}, callback_calls = []\<rparr>))
   \<and> fst (on_created RaisesException
        \<lparr>is_directory = False, src_path = ''./inbox/a.JPG''\<rparr>
        \<lparr>processing = {}, callback_calls = []\<rparr>) = Completed
   \<and> callback_calls (snd (on_created Returns
        \<lparr>is_directory = False, src_path = ''./inbox/a.JPG''\<rparr>
        (snd (on_created RaisesException
           \<lparr>is_directory = False, src_path = ''./inbox/a.JPG''\<rparr>
           \<lparr>processing = {}, callback_calls = []\<rparr>))))
       = [''./inbox/a.JPG'', ''./inbox/a.JPG'']"
  using on_created_clears_in_flight [of "\<lparr>is_directory = False, src_path = ''./inbox/a.JPG''\<rparr>"
      "\<lparr>processing = {}, callback_calls = []\<rparr>" RaisesException Returns]
    image_extension_jpg
  by simp

section \<open>Theorems: matching\<close>

lemma group_scores_filter:
  "group_scores t g pd = group_scores t (filter (same_dimension t) g) pd"
  by (induction t g pd rule: group_scores.induct) (auto simp: same_dimension_def)

lemma scores_of_add_score:
  "scores_of (add_score n nn sc pd) name = scores_of pd name @ (if name = n then [sc] else [])"
  by (induction n nn sc pd rule: add_score.induct) (auto simp: scores_of_def)

lemma keys_add_score:
  "map fst (add_score n nn sc pd) = (if n \<in> set (map fst pd) then map fst pd else map fst pd @ [n])"
  by (induction n nn sc pd rule: add_score.induct) (auto)

lemma distinct_add_score: "distinct (map fst pd) \<Longrightarrow> distinct (map fst (add_score n nn sc pd))"
  by (simp add: keys_add_score)

lemma nonempty_add_score:
  "\<forall>e \<in> set pd. fst (snd e) \<noteq> [] \<Longrightarrow> \<forall>e \<in> set (add_score n nn sc pd). fst (snd e) \<noteq> []"
  by (induction n nn sc pd rule: add_score.induct) (auto)

lemma scores_of_group_scores:
  "scores_of (group_scores t g pd) name = scores_of pd name @ surviving t g name"
  by (induction t g pd rule: group_scores.induct)
     (auto simp: surviving_def scores_of_add_score compare_faces_def)

lemma distinct_group_scores:
  "distinct (map fst pd) \<Longrightarrow> distinct (map fst (group_scores t g pd))"
  by (induction t g pd rule: group_scores.induct) (auto simp: distinct_add_score)

lemma nonempty_group_scores:
  "\<forall>e \<in> set pd. fst (snd e) \<noteq> [] \<Longrightarrow> \<forall>e \<in> set (group_scores t g pd). fst (snd e) \<noteq> []"
proof (induction t g pd rule: group_scores.induct)
  case (2 t img_id name nickname db_embedding rest pd)
  then show ?case using nonempty_add_score by (auto simp del: add_score.simps)
qed simp

lemma group_scores_entry:
  assumes "(name, (scores, nn)) \<in> set (group_scores t g [])"
  shows "scores = surviving t g name \<and> scores \<noteq> []"
proof -
  have d: "distinct (map fst (group_scores t g []))" by (rule distinct_group_scores) simp
  then have "map_of (group_scores t g []) name = Some (scores, nn)" using assms by simp
  then have "scores_of (group_scores t g []) name = scores" by (simp add: scores_of_def)
  moreover have "scores_of (group_scores t g []) name = surviving t g name"
    unfolding scores_of_group_scores by (simp add: scores_of_def)
  moreover have "scores \<noteq> []" using nonempty_group_scores[of "[]" t g] assms by fastforce
  ultimately show ?thesis by simp
qed

lemma map_fst_sorted_desc: "map fst (sorted_desc xs) = rev (sort (map fst xs))"
proof -
  have "map fst (sort_key fst (rev xs)) = sort (map fst xs)"
    by (rule properties_for_sort[symmetric]) (simp_all)
  moreover have "map fst (rev (sort_key fst (rev xs))) = rev (map fst (sort_key fst (rev xs)))"
    by (simp add: rev_map)
  ultimately show ?thesis by (simp add: sorted_desc_def)
qed

lemma length_sorted_desc [simp]: "length (sorted_desc xs) = length xs"
  by (simp add: sorted_desc_def)

lemma set_sorted_desc [simp]: "set (sorted_desc xs) = set xs"
  by (simp add: sorted_desc_def)

lemma sorted_le_last: "sorted xs \<Longrightarrow> x \<in> set xs \<Longrightarrow> x \<le> last xs"
  by (induction xs) auto

lemma last_sort_Max:
  fixes ys :: "real list"
  assumes "ys \<noteq> []"
  shows "last (sort ys) = Max (set ys)"
proof -
  have ne: "sort ys \<noteq> []" using assms by (metis length_sort length_0_conv)
  have "Max (set (sort ys)) = last (sort ys)"
  proof (rule Max_eqI)
    show "finite (set (sort ys))" by simp
    show "\<And>y. y \<in> set (sort ys) \<Longrightarrow> y \<le> last (sort ys)"
      by (rule sorted_le_last) simp_all
    show "last (sort ys) \<in> set (sort ys)" using ne by (rule last_in_set)
  qed
  then show ?thesis by simp
qed

lemma hd_sorted_desc:
  assumes "xs \<noteq> []"
  shows "fst (hd (sorted_desc xs)) = Max (fst ` set xs) \<and> hd (sorted_desc xs) \<in> set xs"
proof -
  have ne: "sorted_desc xs \<noteq> []" using assms by (metis length_sorted_desc length_0_conv)
  have "fst (hd (sorted_desc xs)) = hd (map fst (sorted_desc xs))" using ne by (simp add: hd_map)
  also have "\<dots> = last (sort (map fst xs))" using assms
    by (simp add: map_fst_sorted_desc hd_rev)
  also have "\<dots> = Max (set (map fst xs))" using assms by (intro last_sort_Max) simp
  finally have "fst (hd (sorted_desc xs)) = Max (fst ` set xs)" by simp
  moreover have "hd (sorted_desc xs) \<in> set xs" using ne hd_in_set by fastforce
  ultimately show ?thesis by simp
qed

lemma final_score_voting:
  assumes "1 \<le> top_k" and "top_k \<le> int (length scores)"
  shows "\<exists>best. final_score top_k scores = Inr (snd best, top_mean (nat top_k) (map fst scores))
           \<and> best \<in> set scores \<and> fst best = Max (fst ` set scores)"
proof -
  have ne: "scores \<noteq> []" using assms by auto
  define top where "top = slice_to (sorted_desc scores) top_k"
  have top: "top = take (nat top_k) (sorted_desc scores)" using assms by (simp add: top_def slice_to_def)
  have len: "length top = nat top_k" using assms by (simp add: top)
  then have tne: "top \<noteq> []" using assms by auto
  then obtain b bs where bbs: "top = b # bs" by (cases top) auto
  have hd: "b = hd (sorted_desc scores)" using bbs top assms
    by (metis hd_take list.sel(1) len length_greater_0_conv tne)
  have "map fst top = take (nat top_k) (rev (sort (map fst scores)))"
    by (simp add: top take_map[symmetric] map_fst_sorted_desc)
  then have mean: "sum_list (map fst top) / real (length top) = top_mean (nat top_k) (map fst scores)"
    by (simp add: top_mean_def len)
  have "final_score top_k scores = Inr (snd b, sum_list (map fst top) / real (length top))"
    using assms bbs by (simp add: final_score_def Let_def top_def[symmetric])
  moreover have "fst b = Max (fst ` set scores)" "b \<in> set scores"
    using hd hd_sorted_desc[OF ne] by simp_all
  ultimately show ?thesis using mean by (intro exI[of _ b]) simp
qed

lemma final_score_single:
  assumes "scores \<noteq> []" and "int (length scores) < top_k"
  shows "\<exists>best. final_score top_k scores = Inr (snd best, Max (fst ` set scores))
           \<and> best \<in> set scores \<and> fst best = Max (fst ` set scores)"
proof -
  have ne: "sorted_desc scores \<noteq> []" using assms by (metis length_sorted_desc length_0_conv)
  then obtain b bs where bbs: "sorted_desc scores = b # bs" by (cases "sorted_desc scores") auto
  then have hd: "b = hd (sorted_desc scores)" by simp
  have "final_score top_k scores = Inr (snd b, fst b)"
    using assms bbs by (simp add: final_score_def Let_def)
  moreover have "fst b = Max (fst ` set scores)" "b \<in> set scores"
    using hd hd_sorted_desc[OF assms(1)] by simp_all
  ultimately show ?thesis by (intro exI[of _ b]) simp
qed

lemma best_over_sound:
  assumes "best_over top_k pd best_score best_match = Inr (Some (i, n, nn, s))"
  shows "best_match = Some (i, n, nn, s) \<or>
         (\<exists>scores. (n, (scores, nn)) \<in> set pd \<and> final_score top_k scores = Inr (i, s))"
  using assms
proof (induction pd arbitrary: best_score best_match)
  case Nil
  then show ?case by simp
next
  case (Cons e rest)
  obtain person_name scores_with_ids nickname where e: "e = (person_name, (scores_with_ids, nickname))"
    by (cases e) auto
  show ?case
  proof (cases "final_score top_k scores_with_ids")
    case (Inl err)
    then show ?thesis using Cons.prems e by simp
  next
    case (Inr r)
    obtain best_img_id fs where r: "r = (best_img_id, fs)" by (cases r) auto
    show ?thesis
    proof (cases "fs > best_score")
      case True
      then have "best_over top_k rest fs (Some (best_img_id, person_name, nickname, fs))
                   = Inr (Some (i, n, nn, s))"
        using Cons.prems e Inr r by simp
      from Cons.IH[OF this] show ?thesis using e Inr r by auto
    next
      case False
      then have "best_over top_k rest best_score best_match = Inr (Some (i, n, nn, s))"
        using Cons.prems e Inr r by simp
      from Cons.IH[OF this] show ?thesis by auto
    qed
  qed
qed

lemma best_over_above:
  assumes "best_over top_k pd best_score best_match = Inr (Some (i, n, nn, s))"
    and "threshold \<le> best_score"
    and "\<And>i n nn s. best_match = Some (i, n, nn, s) \<Longrightarrow> threshold < s"
  shows "threshold < s"
  using assms
proof (induction pd arbitrary: best_score best_match)
  case Nil
  then show ?case by simp
next
  case (Cons e rest)
  obtain person_name scores_with_ids nickname where e: "e = (person_name, (scores_with_ids, nickname))"
    by (cases e) auto
  show ?case
  proof (cases "final_score top_k scores_with_ids")
    case (Inl err)
    then show ?thesis using Cons.prems e by simp
  next
    case (Inr r)
    obtain best_img_id fs where r: "r = (best_img_id, fs)" by (cases r) auto
    show ?thesis
    proof (cases "fs > best_score")
      case True
      then have run: "best_over top_k rest fs (Some (best_img_id, person_name, nickname, fs))
                   = Inr (Some (i, n, nn, s))"
        using Cons.prems e Inr r by simp
      have "threshold \<le> fs" "threshold < fs" using True Cons.prems(2) by simp_all
      then show ?thesis using Cons.IH[OF run, of ] by simp
    next
      case False
      then have run: "best_over top_k rest best_score best_match = Inr (Some (i, n, nn, s))"
        using Cons.prems e Inr r by simp
      show ?thesis using Cons.IH[OF run Cons.prems(2)] Cons.prems(3) by blast
    qed
  qed
qed

lemma best_over_total:
  assumes "1 \<le> top_k" and "\<forall>e \<in> set pd. fst (snd e) \<noteq> []"
  shows "\<exists>r. best_over top_k pd best_score best_match = Inr r"
  using assms
proof (induction top_k pd best_score best_match rule: best_over.induct)
  case (1 top_k best_score best_match)
  then show ?case by simp
next
  case (2 top_k person_name scores_with_ids nickname rest best_score best_match)
  have ne: "scores_with_ids \<noteq> []" using 2 by simp
  obtain r where r: "final_score top_k scores_with_ids = Inr r"
    using final_score_voting[of top_k scores_with_ids] final_score_single[OF ne, of top_k] 2(3)
    by (cases "top_k \<le> int (length scores_with_ids)") (auto)
  then show ?case using 2 by (cases r) (auto)
qed


lemma group_scores_has_entry:
  assumes "surviving t g name \<noteq> []"
  shows "\<exists>scores nn. (name, (scores, nn)) \<in> set (group_scores t g [])"
proof -
  have "scores_of (group_scores t g []) name \<noteq> []"
    using assms unfolding scores_of_group_scores by (simp add: scores_of_def)
  then obtain v where "map_of (group_scores t g []) name = Some v"
    by (auto simp: scores_of_def split: option.splits)
  then have "(name, v) \<in> set (group_scores t g [])" by (rule map_of_SomeD)
  then show ?thesis by (cases v) auto
qed

lemma final_score_hybrid:
  assumes "1 \<le> top_k" and "scores \<noteq> []"
  shows "\<exists>best. best \<in> set scores \<and> fst best = Max (fst ` set scores) \<and>
           final_score top_k scores =
             Inr (snd best, if top_k \<le> int (length scores)
                            then top_mean (nat top_k) (map fst scores)
                            else Max (fst ` set scores))"
proof (cases "top_k \<le> int (length scores)")
  case True
  then show ?thesis using final_score_voting[OF assms(1) True] by auto
next
  case False
  then show ?thesis using final_score_single[OF assms(2), of top_k] by auto
qed

text \<open>
  Claim C1. For \<open>top_k \<ge> 1\<close>: (a) \<open>find_match\<close> returns the same result on the gallery
  and on the gallery without the entries whose dimension differs from the probe's;
  (b) every person with a surviving entry gets an entry of \<open>person_data\<close>; (c) the scores
  grouped under a person are exactly that person's surviving (similarity, id) pairs, and
  the final score computed from them is the mean of the \<open>top_k\<close> highest when there are
  at least \<open>top_k\<close>, and the maximum otherwise, the representative image id being that
  of a highest-scoring sample; (d) a match that \<open>find_match\<close> returns carries such a
  final score and representative id of the person it names.
\<close>

theorem find_match_final_scores:
  assumes "1 \<le> top_k"
  shows "find_match t g thr top_k = find_match t (filter (same_dimension t) g) thr top_k
    \<and> (\<forall>name. surviving t g name \<noteq> [] \<longrightarrow>
          (\<exists>scores nn. (name, (scores, nn)) \<in> set (group_scores t g [])))
    \<and> (\<forall>name scores nn. (name, (scores, nn)) \<in> set (group_scores t g []) \<longrightarrow>
          scores = surviving t g name \<and> scores \<noteq> [] \<and>
          (\<exists>best. best \<in> set scores \<and> fst best = Max (fst ` set scores) \<and>
             final_score top_k scores =
               Inr (snd best, if top_k \<le> int (length scores)
                              then top_mean (nat top_k) (map fst scores)
                              else Max (fst ` set scores))))
    \<and> (\<forall>i n nn s. find_match t g thr top_k = Inr (Some (i, n, nn, s)) \<longrightarrow>
          (\<exists>best. best \<in> set (surviving t g n) \<and> snd best = i \<and>
                  fst best = Max (fst ` set (surviving t g n))) \<and>
          s = (if top_k \<le> int (length (surviving t g n))
               then top_mean (nat top_k) (map fst (surviving t g n))
               else Max (fst ` set (surviving t g n))))"
proof (intro conjI allI impI)
  show "find_match t g thr top_k = find_match t (filter (same_dimension t) g) thr top_k"
    unfolding find_match_def by (subst group_scores_filter) simp
next
  fix name assume "surviving t g name \<noteq> []"
  then show "\<exists>scores nn. (name, (scores, nn)) \<in> set (group_scores t g [])"
    by (rule group_scores_has_entry)
next
  fix name scores nn assume a: "(name, (scores, nn)) \<in> set (group_scores t g [])"
  show "scores = surviving t g name" using group_scores_entry[OF a] by (rule conjunct1)
  show ne: "scores \<noteq> []" using group_scores_entry[OF a] by (rule conjunct2)
  show "\<exists>best. best \<in> set scores \<and> fst best = Max (fst ` set scores) \<and>
             final_score top_k scores =
               Inr (snd best, if top_k \<le> int (length scores)
                              then top_mean (nat top_k) (map fst scores)
                              else Max (fst ` set scores))"
    by (rule final_score_hybrid[OF assms ne])
next
  fix i n nn s assume r: "find_match t g thr top_k = Inr (Some (i, n, nn, s))"
  then obtain scores where in_pd: "(n, (scores, nn)) \<in> set (group_scores t g [])"
      and fs: "final_score top_k scores = Inr (i, s)"
    using best_over_sound[of top_k "group_scores t g []" thr None i n nn s]
    by (auto simp: find_match_def)
  have sc: "scores = surviving t g n" "scores \<noteq> []" using group_scores_entry[OF in_pd] by blast+
  obtain best where b: "best \<in> set scores" "fst best = Max (fst ` set scores)"
      "final_score top_k scores =
               Inr (snd best, if top_k \<le> int (length scores)
                              then top_mean (nat top_k) (map fst scores)
                              else Max (fst ` set scores))"
    using final_score_hybrid[OF assms sc(2)] by blast
  from b(3) fs have eq: "snd best = i"
     "s = (if top_k \<le> int (length scores)
                              then top_mean (nat top_k) (map fst scores)
                              else Max (fst ` set scores))" by simp_all
  show "\<exists>best. best \<in> set (surviving t g n) \<and> snd best = i \<and>
                  fst best = Max (fst ` set (surviving t g n))"
    using b(1,2) eq(1) sc(1) by blast
  show "s = (if top_k \<le> int (length (surviving t g n))
               then top_mean (nat top_k) (map fst (surviving t g n))
               else Max (fst ` set (surviving t g n)))"
    using eq(2) sc(1) by simp
qed

lemma example_find_match:
  "find_match [1, 0, 0] example_gallery (4/10) 3 = Inr (Some (1, ''A'', Some ''Ann'', 8/10))"
  by (simp add: find_match_def example_gallery_def compare_faces_def dot_def final_score_def
      sorted_desc_def slice_to_def)

lemma example_surviving:
  "surviving [1, 0, 0] example_gallery ''A''
     = [(9/10, 1), (8/10, 2), (7/10, 4), (6/10, 5), (5/10, 6)]"
  by (simp add: surviving_def example_gallery_def dot_def)

theorem find_match_final_scores_witness:
  "find_match [1, 0, 0] (filter (same_dimension [1, 0, 0]) example_gallery) (4/10) 3
     = Inr (Some (1, ''A'', Some ''Ann'', 8/10))
   \<and> top_mean 3 (map fst (surviving [1, 0, 0] example_gallery ''A'')) = 8/10"
proof -
  have k: "(1::int) \<le> 3" by simp
  note th = find_match_final_scores [OF k, of "[1, 0, 0]" example_gallery "4/10"]
  have a: "find_match [1, 0, 0] (filter (same_dimension [1, 0, 0]) example_gallery) (4/10) 3
     = Inr (Some (1, ''A'', Some ''Ann'', 8/10))"
    using th example_find_match by simp
  have "8/10 = (if (3::int) \<le> int (length (surviving [1, 0, 0] example_gallery ''A''))
               then top_mean (nat 3) (map fst (surviving [1, 0, 0] example_gallery ''A''))
               else Max (fst ` set (surviving [1, 0, 0] example_gallery ''A'')))"
    using th example_find_match by blast
  then have b: "top_mean 3 (map fst (surviving [1, 0, 0] example_gallery ''A'')) = 8/10"
    by (simp add: example_surviving)
  from a b show ?thesis by simp
qed

text \<open>
  Claim C2, as amended. For \<open>top_k \<ge> 1\<close>, \<open>find_match\<close> returns (it raises nothing),
  and for every \<open>top_k\<close> a match it returns has a score strictly above the threshold.
\<close>

theorem find_match_threshold:
  "(1 \<le> top_k \<longrightarrow> (\<exists>r. find_match t g thr top_k = Inr r))
   \<and> (\<forall>i n nn s. find_match t g thr top_k = Inr (Some (i, n, nn, s)) \<longrightarrow> thr < s)"
proof (intro conjI allI impI)
  assume "1 \<le> top_k"
  moreover have "\<forall>e \<in> set (group_scores t g []). fst (snd e) \<noteq> []"
    by (rule nonempty_group_scores) simp
  ultimately show "\<exists>r. find_match t g thr top_k = Inr r"
    unfolding find_match_def by (rule best_over_total)
next
  fix i n nn s assume "find_match t g thr top_k = Inr (Some (i, n, nn, s))"
  then show "thr < s"
    unfolding find_match_def by (rule best_over_above) simp_all
qed

theorem find_match_threshold_witness:
  "find_match [1, 0, 0] example_gallery (4/10) 3 = Inr (Some (1, ''A'', Some ''Ann'', 8/10))
   \<and> (4/10 :: real) < 8/10"
  using find_match_threshold [of 3 "[1, 0, 0]" example_gallery "4/10"] example_find_match
  by simp

text \<open>
  Claim C2 as stated fails for \<open>top_k = 0\<close>: every person has at least \<open>0\<close> scores, the
  slice \<open>sorted_scores[:0]\<close> is empty, and the mean divides by \<open>len(top_scores) = 0\<close>.
  The call neither returns "no match" nor returns a tuple.
\<close>

theorem find_match_zero_top_k:
  "find_match [1] [(1, ''A'', None, [1])] 0 0 = Inl ZeroDivisionError"
  by (simp add: find_match_def compare_faces_def dot_def final_score_def
      sorted_desc_def slice_to_def)

section \<open>Theorems: store\<close>

subsection \<open>Frame lemmas\<close>

lemma safe_delete_file_simps [simp]:
  "persons (snd (safe_delete_file p s)) = persons s"
  "face_images (snd (safe_delete_file p s)) = face_images s"
  "recognition_history (snd (safe_delete_file p s)) = recognition_history s"
  "settings (snd (safe_delete_file p s)) = settings s"
  "face_images_seq (snd (safe_delete_file p s)) = face_images_seq s"
  "recognition_history_seq (snd (safe_delete_file p s)) = recognition_history_seq s"
  "undeletable (snd (safe_delete_file p s)) = undeletable s"
  by (cases p; auto simp: safe_delete_file_def os_remove_def)+

lemma files_safe_delete_file:
  "files (snd (safe_delete_file p s)) =
     (case p of None \<Rightarrow> files s
      | Some q \<Rightarrow> if q \<noteq> [] \<and> q \<notin> undeletable s then files s - {q} else files s)"
  by (cases p) (auto simp: safe_delete_file_def os_remove_def)

lemma sql_delete_face_images_simps [simp]:
  "persons (sql_delete_face_images c s) = persons s"
  "face_images (sql_delete_face_images c s) = filter (\<lambda>fi. \<not> c fi) (face_images s)"
  "settings (sql_delete_face_images c s) = settings s"
  "files (sql_delete_face_images c s) = files s"
  "undeletable (sql_delete_face_images c s) = undeletable s"
  "face_images_seq (sql_delete_face_images c s) = face_images_seq s"
  "recognition_history_seq (sql_delete_face_images c s) = recognition_history_seq s"
  by (simp_all add: sql_delete_face_images_def Let_def)

lemma delete_face_image_simps [simp]:
  "persons (delete_face_image i s) = persons s"
  "face_images (delete_face_image i s) = filter (\<lambda>fi. fi_id fi \<noteq> i) (face_images s)"
  "settings (delete_face_image i s) = settings s"
  "undeletable (delete_face_image i s) = undeletable s"
  "face_images_seq (delete_face_image i s) = face_images_seq s"
  by (simp_all add: delete_face_image_def Let_def split: option.splits)

lemma foldl_delete_files_simps [simp]:
  "persons (foldl (\<lambda>s' img. snd (safe_delete_file (g img) (snd (safe_delete_file (f img) s')))) s imgs) = persons s"
  "face_images (foldl (\<lambda>s' img. snd (safe_delete_file (g img) (snd (safe_delete_file (f img) s')))) s imgs) = face_images s"
  "recognition_history (foldl (\<lambda>s' img. snd (safe_delete_file (g img) (snd (safe_delete_file (f img) s')))) s imgs) = recognition_history s"
  by (induction imgs arbitrary: s; simp)+

subsection \<open>Deleting a person\<close>

text \<open>
  Claim C9, as amended. Deleting a person deletes no history row: the rows after the
  deletion correspond one to one, in order, to the rows before. A row that referred to
  the person keeps its id, media paths, bounding box and timestamp, while its person
  reference becomes null, its stored name becomes \<open>'Unknown'\<close>, its nickname null and
  its score 0. Every other row keeps person reference, name, nickname and score. The
  reference to a training sample is kept or becomes null. The person is gone.
\<close>

theorem delete_person_keeps_history:
  "list_all2 (unlinked person_id) (recognition_history s)
     (recognition_history (delete_person person_id s))
   \<and> person_id \<notin> set (map p_id (persons (delete_person person_id s)))"
  by (auto simp: delete_person_def Let_def sql_delete_person_def sql_delete_face_images_def
      list_all2_map2 unlinked_def split: option.splits intro!: list_all2_refl)


theorem delete_person_keeps_history_witness:
  "list_all2 (unlinked 1) (recognition_history small_store)
     (recognition_history (delete_person 1 small_store))
   \<and> map h_person_name (recognition_history (delete_person 1 small_store)) = [Some ''Unknown'']"
  using delete_person_keeps_history [of 1 small_store]
  by (simp add: delete_person_def small_store_def alice_seen_def alice_sample_def alice_def
      safe_delete_file_def os_remove_def sql_delete_face_images_def sql_delete_person_def)

text \<open>
  Claim C9 as stated fails: the stored name and nickname do not survive the deletion
  unchanged. The row of the example store records \<open>alice\<close> / \<open>Al\<close> before person 1
  is deleted, and \<open>Unknown\<close> / null after.
\<close>

theorem delete_person_resets_name:
  "map h_person_name (recognition_history small_store) = [Some ''alice'']
   \<and> map h_nickname (recognition_history small_store) = [Some ''Al'']
   \<and> map h_person_name (recognition_history (delete_person 1 small_store)) = [Some ''Unknown'']
   \<and> map h_nickname (recognition_history (delete_person 1 small_store)) = [None]"
  by (simp add: delete_person_def small_store_def alice_seen_def alice_sample_def alice_def
      safe_delete_file_def os_remove_def sql_delete_face_images_def sql_delete_person_def)

subsection \<open>Undoing a history record\<close>

text \<open>
  Claim C8, evaluated on the example store, whose history row 1 refers to training
  sample 1. Undoing row 1 deletes the history row, the sample row, the two history
  media files and the cropped image of the sample; the only file left is the stored
  original image of the sample. \<open>delete_face_image\<close> on the same sample removes both
  of its files.
\<close>

theorem undo_recognition_leaves_original:
  "recognition_history (undo_recognition 1 small_store) = []
   \<and> face_images (undo_recognition 1 small_store) = []
   \<and> files (undo_recognition 1 small_store) = {''static/original/alice/alice_t1.jpg''}
   \<and> files (delete_face_image 1 small_store)
       = {''static/logs/log_t1.jpg'', ''static/logs/thumb_t1.jpg''}"
  by (auto simp: undo_recognition_def delete_face_image_def small_store_def alice_seen_def
      alice_sample_def alice_def safe_delete_file_def os_remove_def sql_delete_face_images_def)

subsection \<open>Enrollment\<close>

lemma face_save_path_nonempty [simp]: "face_save_path n t \<noteq> []"
  by (simp add: face_save_path_def)

lemma evict_if_full_simps [simp]:
  "persons (evict_if_full pid M s) = persons s"
  "settings (evict_if_full pid M s) = settings s"
  "undeletable (evict_if_full pid M s) = undeletable s"
  "face_images_seq (evict_if_full pid M s) = face_images_seq s"
  by (simp_all add: evict_if_full_def split: option.splits)

lemma face_images_evict_if_full_subset:
  "set (face_images (evict_if_full pid M s)) \<subseteq> set (face_images s)"
  by (auto simp: evict_if_full_def split: option.splits)

text \<open>
  Claim C7, as amended. When the cropped image was written and the copy of the original
  fails: \<open>auto_train_face\<close> returns failure (\<open>None\<close>) and inserts no row, and the
  cropped file exists afterwards exactly when its removal fails; \<open>save_face_image\<close>
  inserts no row, and it returns failure with the cropped file removed when the removal
  succeeds, and raises the removal's \<open>OSError\<close> with the file left in place otherwise.
\<close>

theorem enrollment_copy_failure:
  assumes "imwrite_ok io" and "\<not> copy_ok io"
  shows "(\<forall>M. max_images_per_person s = Inr M \<longrightarrow>
            fst (auto_train_face pid name emb ts io now s) = Inr None
          \<and> set (face_images (snd (auto_train_face pid name emb ts io now s)))
               \<subseteq> set (face_images s)
          \<and> (face_save_path name ts \<in> files (snd (auto_train_face pid name emb ts io now s))
               \<longleftrightarrow> face_save_path name ts \<in> undeletable s))
     \<and> face_images (snd (save_face_image pid name filename emb io now s)) = face_images s
     \<and> (''static/detect/'' @ name @ ''/'' @ filename \<notin> undeletable s \<longrightarrow>
            fst (save_face_image pid name filename emb io now s) = Inr None
          \<and> ''static/detect/'' @ name @ ''/'' @ filename
               \<notin> files (snd (save_face_image pid name filename emb io now s)))
     \<and> (''static/detect/'' @ name @ ''/'' @ filename \<in> undeletable s \<longrightarrow>
            fst (save_face_image pid name filename emb io now s) = Inl OSError
          \<and> ''static/detect/'' @ name @ ''/'' @ filename
               \<in> files (snd (save_face_image pid name filename emb io now s)))"
proof (intro conjI allI impI)
  fix M assume M: "max_images_per_person s = Inr M"
  show "fst (auto_train_face pid name emb ts io now s) = Inr None"
    using assms M by (simp add: auto_train_face_def Let_def)
  show "set (face_images (snd (auto_train_face pid name emb ts io now s))) \<subseteq> set (face_images s)"
    using assms M face_images_evict_if_full_subset[of pid M s]
    by (simp add: auto_train_face_def Let_def)
  show "face_save_path name ts \<in> files (snd (auto_train_face pid name emb ts io now s))
          \<longleftrightarrow> face_save_path name ts \<in> undeletable s"
    using assms M by (simp add: auto_train_face_def Let_def files_safe_delete_file)
next
  show "face_images (snd (save_face_image pid name filename emb io now s)) = face_images s"
    using assms by (auto simp: save_face_image_def Let_def os_remove_def)
next
  assume "''static/detect/'' @ name @ ''/'' @ filename \<notin> undeletable s"
  then show "fst (save_face_image pid name filename emb io now s) = Inr None"
    and "''static/detect/'' @ name @ ''/'' @ filename
               \<notin> files (snd (save_face_image pid name filename emb io now s))"
    using assms by (auto simp: save_face_image_def Let_def os_remove_def)
next
  assume "''static/detect/'' @ name @ ''/'' @ filename \<in> undeletable s"
  then show "fst (save_face_image pid name filename emb io now s) = Inl OSError"
    and "''static/detect/'' @ name @ ''/'' @ filename
               \<in> files (snd (save_face_image pid name filename emb io now s))"
    using assms by (auto simp: save_face_image_def Let_def os_remove_def)
qed

lemma max_images_small_store: "max_images_per_person small_store = Inr 2"
  by (simp add: max_images_per_person_def get_setting_def small_store_def py_int_def digit_value_def)

theorem enrollment_copy_failure_witness:
  "fst (auto_train_face 1 ''alice'' [1, 0, 0] ''t2'' copy_fails 120 small_store) = Inr None
   \<and> face_save_path ''alice'' ''t2''
        \<notin> files (snd (auto_train_face 1 ''alice'' [1, 0, 0] ''t2'' copy_fails 120 small_store))
   \<and> fst (save_face_image 1 ''alice'' ''alice_t2.jpg'' [1, 0, 0] copy_fails 120 small_store)
        = Inr None"
  using enrollment_copy_failure [of copy_fails small_store 1 "''alice''" "[1, 0, 0]" "''t2''" 120
      "''alice_t2.jpg''"]
    max_images_small_store
  by (simp add: copy_fails_def small_store_def)

text \<open>
  Claim C7 as stated fails where the cropped file cannot be removed: the call returns
  failure and the file, which did not exist before the call, stays on disk.
\<close>

theorem enrollment_copy_failure_leaves_file:
  "face_save_path ''alice'' ''t2'' \<notin> files locked_store
   \<and> fst (auto_train_face 1 ''alice'' [1, 0, 0] ''t2'' copy_fails 120 locked_store) = Inr None
   \<and> face_save_path ''alice'' ''t2''
        \<in> files (snd (auto_train_face 1 ''alice'' [1, 0, 0] ''t2'' copy_fails 120 locked_store))"
  by (simp add: auto_train_face_def Let_def copy_fails_def
      files_safe_delete_file evict_if_full_def get_face_count_def person_images_def
      locked_store_def small_store_def alice_sample_def face_save_path_def
      max_images_per_person_def get_setting_def py_int_def digit_value_def)


lemma sort_key_hd_min:
  assumes "sort_key f xs = y # ys"
  shows "y \<in> set xs \<and> (\<forall>x \<in> set xs. f y \<le> f x)"
proof -
  have s: "set (y # ys) = set xs" using assms by (metis set_sort)
  have "sorted (map f (y # ys))" using assms by (metis sorted_sort_key)
  then have "\<forall>z \<in> set ys. f y \<le> f z" by simp
  then show ?thesis using s by auto
qed

lemma get_oldest_face_image_Some:
  assumes "person_images pid s \<noteq> []"
  shows "\<exists>oldest. get_oldest_face_image pid s = Some oldest
           \<and> oldest \<in> set (person_images pid s)
           \<and> (\<forall>fi \<in> set (person_images pid s). fi_created_at oldest \<le> fi_created_at fi)"
proof -
  have "sort_key fi_created_at (person_images pid s) \<noteq> []"
    using assms by (metis length_sort length_0_conv)
  then obtain y ys where y: "sort_key fi_created_at (person_images pid s) = y # ys"
    by (cases "sort_key fi_created_at (person_images pid s)") auto
  then have "get_oldest_face_image pid s = Some y" by (simp add: get_oldest_face_image_def)
  then show ?thesis using sort_key_hd_min[OF y] by blast
qed

lemma filter_key_remove1:
  assumes "distinct (map f xs)" and "x \<in> set xs"
  shows "filter (\<lambda>y. f y \<noteq> f x) xs = remove1 x xs"
  using assms
proof (induction xs)
  case Nil
  then show ?case by simp
next
  case (Cons a xs)
  show ?case
  proof (cases "a = x")
    case True
    have "\<forall>y \<in> set xs. f y \<noteq> f x" using Cons.prems True by (metis distinct.simps(2) image_eqI list.simps(9) set_map)
    then have "filter (\<lambda>y. f y \<noteq> f x) xs = xs" by (simp add: filter_id_conv)
    then show ?thesis using True by simp
  next
    case False
    then have "x \<in> set xs" using Cons.prems by simp
    moreover have "f a \<noteq> f x" using Cons.prems False calculation
      by (metis distinct.simps(2) image_eqI list.simps(9) set_map)
    ultimately show ?thesis using Cons False by simp
  qed
qed

lemma person_images_in: "fi \<in> set (person_images pid s) \<longleftrightarrow> fi \<in> set (face_images s) \<and> fi_person_id fi = pid"
  by (auto simp: person_images_def)

lemma evict_if_full_at_quota:
  assumes "distinct (map fi_id (face_images s))"
    and "M \<le> int (get_face_count pid s)" and "1 \<le> M"
  shows "\<exists>oldest. get_oldest_face_image pid s = Some oldest
           \<and> oldest \<in> set (person_images pid s)
           \<and> (\<forall>fi \<in> set (person_images pid s). fi_created_at oldest \<le> fi_created_at fi)
           \<and> face_images (evict_if_full pid M s) = remove1 oldest (face_images s)"
proof -
  have ne: "person_images pid s \<noteq> []" using assms(2,3) by (auto simp: get_face_count_def)
  obtain oldest where o: "get_oldest_face_image pid s = Some oldest"
      "oldest \<in> set (person_images pid s)"
      "\<forall>fi \<in> set (person_images pid s). fi_created_at oldest \<le> fi_created_at fi"
    using get_oldest_face_image_Some[OF ne] by blast
  have "oldest \<in> set (face_images s)" using o(2) by (simp add: person_images_in)
  then have "filter (\<lambda>fi. fi_id fi \<noteq> fi_id oldest) (face_images s) = remove1 oldest (face_images s)"
    using assms(1) by (rule filter_key_remove1[rotated])
  then have "face_images (evict_if_full pid M s) = remove1 oldest (face_images s)"
    using assms(2) o(1) by (simp add: evict_if_full_def)
  then show ?thesis using o by blast
qed

lemma evict_if_full_below_quota:
  assumes "int (get_face_count pid s) < M"
  shows "evict_if_full pid M s = s"
  using assms by (simp add: evict_if_full_def)

lemma length_filter_remove1:
  assumes "x \<in> set xs" and "P x"
  shows "Suc (length (filter P (remove1 x xs))) = length (filter P xs)"
  using assms by (induction xs) auto






lemma fold_max_bounds:
  "(seq::nat) \<le> fold max ids seq \<and> (\<forall>x \<in> set ids. x \<le> fold max ids seq)"
proof (induction ids arbitrary: seq)
  case Nil
  then show ?case by simp
next
  case (Cons a ids)
  have ih: "max a seq \<le> fold max ids (max a seq)"
      "\<forall>x \<in> set ids. x \<le> fold max ids (max a seq)"
    using Cons.IH[of "max a seq"] by simp_all
  have "seq \<le> fold max ids (max a seq)" "a \<le> fold max ids (max a seq)"
    using ih(1) by simp_all
  then show ?case using ih(2) by simp
qed

lemma fold_max_ge: "(x::nat) \<in> set ids \<Longrightarrow> x \<le> fold max ids seq"
  using fold_max_bounds[of seq ids] by simp

lemma next_rowid_fresh: "x \<in> set ids \<Longrightarrow> x < next_rowid seq ids"
  using fold_max_ge[of x ids seq] by (simp add: next_rowid_def)

lemma auto_train_face_succeeds:
  assumes "max_images_per_person s = Inr M"
    and "auto_train_face pid name emb ts io now s = (Inr (Some i), s')"
  shows "face_images s' = face_images (evict_if_full pid M s) @
           [\<lparr>fi_id = i, fi_person_id = pid, fi_image_path = face_save_path name ts,
             fi_original_image_path = Some (original_save_path name ts),
             fi_embedding = emb, fi_created_at = now\<rparr>]
       \<and> (\<forall>fi \<in> set (face_images (evict_if_full pid M s)). fi_id fi < i)
       \<and> settings s' = settings s"
  using assms
  by (auto simp: auto_train_face_def Let_def add_face_image_def next_rowid_fresh
      split: if_splits)


lemma max_images_per_person_cong:
  "settings s' = settings s \<Longrightarrow> max_images_per_person s' = max_images_per_person s"
  by (simp add: max_images_per_person_def get_setting_def)

lemma distinct_ids_evict_if_full:
  "distinct (map fi_id (face_images s)) \<Longrightarrow> distinct (map fi_id (face_images (evict_if_full pid M s)))"
  by (auto simp: evict_if_full_def distinct_map_filter split: option.splits)

lemma get_oldest_sorted:
  assumes "sorted (map fi_created_at (person_images pid s))"
  shows "get_oldest_face_image pid s =
           (case person_images pid s of [] \<Rightarrow> None | oldest # _ \<Rightarrow> Some oldest)"
  using sort_key_id_if_sorted[OF assms] by (simp add: get_oldest_face_image_def)

lemma person_images_evict_sorted:
  assumes d: "distinct (map fi_id (face_images s))"
    and srt: "sorted (map fi_created_at (person_images pid s))"
    and M: "1 \<le> M"
  shows "filter (\<lambda>fi. fi_person_id fi = pid) (face_images (evict_if_full pid M s)) =
           (if M \<le> int (length (person_images pid s))
            then tl (person_images pid s) else person_images pid s)"
proof (cases "M \<le> int (length (person_images pid s))")
  case True
  then have q: "M \<le> int (get_face_count pid s)" by (simp add: get_face_count_def)
  obtain oldest where o: "get_oldest_face_image pid s = Some oldest"
      "face_images (evict_if_full pid M s) = remove1 oldest (face_images s)"
    using evict_if_full_at_quota[OF d q M] by blast
  have ne: "person_images pid s \<noteq> []" using True M by auto
  then have hd: "oldest = hd (person_images pid s)"
    using o(1) get_oldest_sorted[OF srt] by (cases "person_images pid s") auto
  have "filter (\<lambda>fi. fi_person_id fi = pid) (remove1 oldest (face_images s))
          = remove1 oldest (person_images pid s)"
    by (simp add: filter_remove1 person_images_def)
  also have "\<dots> = tl (person_images pid s)" using ne hd by (cases "person_images pid s") auto
  finally show ?thesis using True o(2) by simp
next
  case False
  then have "int (get_face_count pid s) < M" by (simp add: get_face_count_def)
  then show ?thesis using False by (simp add: evict_if_full_below_quota person_images_def)
qed

lemma enroll_step:
  assumes mx: "max_images_per_person s = Inr M" and M: "1 \<le> M"
    and d: "distinct (map fi_id (face_images s))"
    and srt: "sorted (map fi_created_at (person_images pid s))"
    and ok: "auto_train_face pid name (e_embedding e) (e_timestamp e) (e_io e) (e_now e) s
               = (Inr (Some i), s')"
  shows "\<exists>new. enrolled_as pid name e new \<and> fi_id new = i
           \<and> person_images pid s' =
                (if M \<le> int (length (person_images pid s))
                 then tl (person_images pid s) else person_images pid s) @ [new]
           \<and> distinct (map fi_id (face_images s'))
           \<and> max_images_per_person s' = Inr M"
proof -
  let ?new = "\<lparr>fi_id = i, fi_person_id = pid, fi_image_path = face_save_path name (e_timestamp e),
             fi_original_image_path = Some (original_save_path name (e_timestamp e)),
             fi_embedding = e_embedding e, fi_created_at = e_now e\<rparr>"
  have st: "face_images s' = face_images (evict_if_full pid M s) @ [?new]"
      "\<forall>fi \<in> set (face_images (evict_if_full pid M s)). fi_id fi < i"
      "settings s' = settings s"
    using auto_train_face_succeeds[OF mx ok] by simp_all
  have "person_images pid s' =
          filter (\<lambda>fi. fi_person_id fi = pid) (face_images (evict_if_full pid M s)) @ [?new]"
    by (simp add: person_images_def st(1))
  then have rows: "person_images pid s' =
                (if M \<le> int (length (person_images pid s))
                 then tl (person_images pid s) else person_images pid s) @ [?new]"
    using person_images_evict_sorted[OF d srt M] by simp
  have "i \<notin> set (map fi_id (face_images (evict_if_full pid M s)))" using st(2) by auto
  then have d': "distinct (map fi_id (face_images s'))"
    using distinct_ids_evict_if_full[OF d, of pid M] by (simp add: st(1))
  have mx': "max_images_per_person s' = Inr M" using max_images_per_person_cong[OF st(3)] mx by simp
  have "enrolled_as pid name e ?new" by (simp add: enrolled_as_def)
  then show ?thesis using rows d' mx' by (intro exI[of _ ?new]) simp
qed

lemma set_tl_subset: "set (tl xs) \<subseteq> set xs"
  by (cases xs) auto

lemma sorted_queue_step:
  fixes a :: nat
  assumes "sorted (xs @ a # ys)" and "set q \<subseteq> set xs" and "sorted q"
  shows "sorted ((q @ [a]) @ ys)"
proof -
  have 1: "sorted (a # ys)" "\<forall>x \<in> set xs. \<forall>y \<in> set (a # ys). x \<le> y"
    using assms(1) by (auto simp: sorted_append)
  have 2: "\<forall>x \<in> set q. \<forall>y \<in> set (a # ys). x \<le> y" using 1(2) assms(2) by blast
  have "sorted (q @ a # ys)" using assms(3) 1(1) 2 by (subst sorted_append) blast
  then show ?thesis by simp
qed

lemma auto_train_all_queue:
  assumes "max_images_per_person s = Inr M" and "1 \<le> M"
    and "distinct (map fi_id (face_images s))"
    and "sorted (map fi_created_at (person_images pid s) @ map e_now es)"
    and "int (length (person_images pid s)) \<le> M"
    and "auto_train_all pid name es s = Some s'"
  shows "\<exists>news. list_all2 (enrolled_as pid name) es news
           \<and> person_images pid s' =
               drop (length (person_images pid s) + length es - nat M)
                 (person_images pid s @ news)"
  using assms
proof (induction es arbitrary: s)
  case Nil
  then show ?case by simp
next
  case (Cons e es)
  let ?rows = "person_images pid s"
  obtain r s1 where run: "auto_train_face pid name (e_embedding e) (e_timestamp e) (e_io e)
                     (e_now e) s = (r, s1)"
    by (cases "auto_train_face pid name (e_embedding e) (e_timestamp e) (e_io e) (e_now e) s")
  from Cons.prems(6) run obtain i where r: "r = Inr (Some i)"
      and rest: "auto_train_all pid name es s1 = Some s'"
    by (auto split: sum.splits option.splits)
  have srt0: "sorted (map fi_created_at ?rows)"
    using Cons.prems(4) by (simp add: sorted_append)
  obtain new where new: "enrolled_as pid name e new"
      "person_images pid s1 =
         (if M \<le> int (length ?rows) then tl ?rows else ?rows) @ [new]"
      "distinct (map fi_id (face_images s1))" "max_images_per_person s1 = Inr M"
    using enroll_step[OF Cons.prems(1,2,3) srt0 run[unfolded r]] by blast
  have cr: "fi_created_at new = e_now e" using new(1) by (simp add: enrolled_as_def)
  have ne: "M \<le> int (length ?rows) \<Longrightarrow> ?rows \<noteq> []" using Cons.prems(2) by auto
  have len1: "int (length (person_images pid s1)) \<le> M"
    using Cons.prems(5) ne by (cases "person_images pid s") (auto simp: new(2))
  let ?q = "if M \<le> int (length ?rows) then tl ?rows else ?rows"
  have srt_q: "sorted (map fi_created_at ?q)"
    using srt0 by (auto simp: map_tl sorted_tl)
  have sub_q: "set (map fi_created_at ?q) \<subseteq> set (map fi_created_at ?rows)"
    using set_tl_subset[of ?rows] by auto
  have "sorted ((map fi_created_at ?q @ [e_now e]) @ map e_now es)"
    using Cons.prems(4) sub_q srt_q by (intro sorted_queue_step[of "map fi_created_at ?rows"]) simp_all
  then have srt1: "sorted (map fi_created_at (person_images pid s1) @ map e_now es)"
    using cr by (simp add: new(2))
  obtain news where news: "list_all2 (enrolled_as pid name) es news"
      "person_images pid s' =
         drop (length (person_images pid s1) + length es - nat M) (person_images pid s1 @ news)"
    using Cons.IH[OF new(4) Cons.prems(2) new(3) srt1 len1 rest] by blast
  have "person_images pid s' =
          drop (length ?rows + length (e # es) - nat M) (?rows @ new # news)"
  proof (cases "M \<le> int (length ?rows)")
    case True
    then have eq: "length ?rows = nat M" using Cons.prems(5) by simp
    have rne: "?rows \<noteq> []" using ne True by simp
    have "person_images pid s1 = tl ?rows @ [new]" using True new(2) by simp
    moreover have "length (person_images pid s1) = nat M"
      using calculation eq rne by (cases "person_images pid s") auto
    ultimately have "person_images pid s' = drop (length es) (tl ?rows @ new # news)"
      using news(2) by simp
    also have "\<dots> = drop (Suc (length es)) (?rows @ new # news)"
      using rne by (cases ?rows) simp_all
    finally show ?thesis using eq by simp
  next
    case False
    then have "person_images pid s1 = ?rows @ [new]" using new(2) by simp
    then show ?thesis using news(2) by simp
  qed
  moreover have "list_all2 (enrolled_as pid name) (e # es) (new # news)"
    using new(1) news(1) by simp
  ultimately show ?case by blast
qed


text \<open>
  Claim C3, as amended. Let the configured maximum be \<open>M \<ge> 1\<close> and the ids of the table distinct
  (primary key). (1) An enrollment that succeeds while the person has at least \<open>M\<close>
  samples deletes exactly one row, a sample of the person with minimal creation time,
  and appends the new row, so the count stays the same. (2) Starting with at most \<open>M\<close>
  samples and a clock that does not run backwards, a run of successful enrollments
  leaves at most \<open>M\<close> samples, and after more than \<open>M\<close> enrollments exactly \<open>M\<close>:
  in order, the rows created by the last \<open>M\<close> enrollments.
\<close>

theorem auto_train_quota_fifo:
  assumes "max_images_per_person s = Inr M" and "1 \<le> M"
    and "distinct (map fi_id (face_images s))"
  shows
   "(\<forall>emb ts io now i s1.
        auto_train_face pid name emb ts io now s = (Inr (Some i), s1)
        \<and> M \<le> int (get_face_count pid s) \<longrightarrow>
          (\<exists>oldest new. get_oldest_face_image pid s = Some oldest
             \<and> oldest \<in> set (person_images pid s)
             \<and> (\<forall>fi \<in> set (person_images pid s). fi_created_at oldest \<le> fi_created_at fi)
             \<and> face_images s1 = remove1 oldest (face_images s) @ [new]
             \<and> fi_id new = i \<and> fi_person_id new = pid \<and> fi_created_at new = now
             \<and> get_face_count pid s1 = get_face_count pid s))
    \<and> (\<forall>es s'. int (get_face_count pid s) \<le> M
          \<and> sorted (map fi_created_at (person_images pid s) @ map e_now es)
          \<and> auto_train_all pid name es s = Some s' \<longrightarrow>
            int (get_face_count pid s') \<le> M
          \<and> (M < int (length es) \<longrightarrow>
                int (get_face_count pid s') = M
              \<and> list_all2 (enrolled_as pid name) (drop (length es - nat M) es)
                   (person_images pid s')))"
proof (intro conjI allI impI)
  fix emb ts io now i s1
  assume a: "auto_train_face pid name emb ts io now s = (Inr (Some i), s1)
        \<and> M \<le> int (get_face_count pid s)"
  let ?new = "\<lparr>fi_id = i, fi_person_id = pid, fi_image_path = face_save_path name ts,
             fi_original_image_path = Some (original_save_path name ts),
             fi_embedding = emb, fi_created_at = now\<rparr>"
  have st: "face_images s1 = face_images (evict_if_full pid M s) @ [?new]"
    using auto_train_face_succeeds[OF assms(1) a[THEN conjunct1]] by simp
  obtain oldest where o: "get_oldest_face_image pid s = Some oldest"
      "oldest \<in> set (person_images pid s)"
      "\<forall>fi \<in> set (person_images pid s). fi_created_at oldest \<le> fi_created_at fi"
      "face_images (evict_if_full pid M s) = remove1 oldest (face_images s)"
    using evict_if_full_at_quota[OF assms(3) a[THEN conjunct2] assms(2)] by blast
  have mem: "oldest \<in> set (face_images s)" "fi_person_id oldest = pid"
    using o(2) by (simp_all add: person_images_in)
  have "Suc (length (filter (\<lambda>fi. fi_person_id fi = pid) (remove1 oldest (face_images s))))
          = length (filter (\<lambda>fi. fi_person_id fi = pid) (face_images s))"
    using mem by (intro length_filter_remove1) simp_all
  then have cnt: "get_face_count pid s1 = get_face_count pid s"
    by (simp add: get_face_count_def person_images_def st o(4))
  show "\<exists>oldest new. get_oldest_face_image pid s = Some oldest
             \<and> oldest \<in> set (person_images pid s)
             \<and> (\<forall>fi \<in> set (person_images pid s). fi_created_at oldest \<le> fi_created_at fi)
             \<and> face_images s1 = remove1 oldest (face_images s) @ [new]
             \<and> fi_id new = i \<and> fi_person_id new = pid \<and> fi_created_at new = now
             \<and> get_face_count pid s1 = get_face_count pid s"
    using o(1,2,3) st o(4) cnt by (intro exI[of _ oldest] exI[of _ ?new]) simp
next
  fix es s'
  assume b: "int (get_face_count pid s) \<le> M
          \<and> sorted (map fi_created_at (person_images pid s) @ map e_now es)
          \<and> auto_train_all pid name es s = Some s'"
  then have len0: "int (length (person_images pid s)) \<le> M" by (simp add: get_face_count_def)
  obtain news where news: "list_all2 (enrolled_as pid name) es news"
      "person_images pid s' =
         drop (length (person_images pid s) + length es - nat M) (person_images pid s @ news)"
    using auto_train_all_queue[OF assms(1,2,3) _ len0, of es name s'] b by blast
  have ln: "length news = length es" using news(1) by (simp add: list_all2_lengthD)
  show "int (get_face_count pid s') \<le> M"
    using len0 assms(2) by (simp add: get_face_count_def news(2) ln)
  {
    assume big: "M < int (length es)"
    then have k: "length (person_images pid s) + length es - nat M
                    = length (person_images pid s) + (length es - nat M)"
      using assms(2) by simp
    have rows: "person_images pid s' = drop (length es - nat M) news"
      unfolding news(2) k by simp
    show "int (get_face_count pid s') = M"
      using big assms(2) by (simp add: get_face_count_def rows ln)
    show "list_all2 (enrolled_as pid name) (drop (length es - nat M) es) (person_images pid s')"
      unfolding rows using news(1) by (rule list_all2_dropI)
  }
qed

lemma three_enrollments_run:
  "\<exists>s'. auto_train_all 1 ''alice'' three_enrollments small_store = Some s'"
proof -
  have "case auto_train_all 1 ''alice'' three_enrollments small_store of
          None \<Rightarrow> False | Some s' \<Rightarrow> True"
    by code_simp
  then show ?thesis
    by (cases "auto_train_all 1 ''alice'' three_enrollments small_store") auto
qed

theorem auto_train_quota_fifo_witness:
  "\<exists>s'. auto_train_all 1 ''alice'' three_enrollments small_store = Some s'
     \<and> int (get_face_count 1 s') = 2
     \<and> list_all2 (enrolled_as 1 ''alice'') (drop 1 three_enrollments) (person_images 1 s')"
proof -
  obtain s' where run: "auto_train_all 1 ''alice'' three_enrollments small_store = Some s'"
    using three_enrollments_run by blast
  have d: "distinct (map fi_id (face_images small_store))" by (simp add: small_store_def)
  have k: "(1::int) \<le> 2" by simp
  have pre: "int (get_face_count 1 small_store) \<le> 2
          \<and> sorted (map fi_created_at (person_images 1 small_store) @ map e_now three_enrollments)
          \<and> auto_train_all 1 ''alice'' three_enrollments small_store = Some s'"
    using run by (simp add: get_face_count_def person_images_def small_store_def alice_sample_def
        three_enrollments_def)
  have big: "(2::int) < int (length three_enrollments)" by (simp add: three_enrollments_def)
  have n: "length three_enrollments - nat 2 = 1" by (simp add: three_enrollments_def)
  from auto_train_quota_fifo[OF max_images_small_store k d, of 1 "''alice''"] pre big
  have "int (get_face_count 1 s') = 2
      \<and> list_all2 (enrolled_as 1 ''alice'') (drop (length three_enrollments - nat 2) three_enrollments)
           (person_images 1 s')"
    by blast
  then show ?thesis using run n by auto
qed

text \<open>
  Claim C3 as stated fails for a person who starts above the maximum, and for a
  maximum below one. Each enrollment evicts one sample only: with maximum 1 and two
  samples, three successful enrollments (more than the maximum, with increasing
  times) leave two samples, not one. With maximum 0 and one sample, three successful
  enrollments leave one sample, not none.
\<close>

theorem auto_train_over_quota_stays_over:
  "max_images_per_person over_quota_store = Inr 1
   \<and> get_face_count 1 over_quota_store = 2
   \<and> length three_enrollments = 3
   \<and> map_option (get_face_count 1)
        (auto_train_all 1 ''alice'' three_enrollments over_quota_store) = Some 2
   \<and> max_images_per_person zero_quota_store = Inr 0
   \<and> map_option (get_face_count 1)
        (auto_train_all 1 ''alice'' three_enrollments zero_quota_store) = Some 1"
proof -
  have a: "max_images_per_person over_quota_store = Inr 1"
    by (simp add: max_images_per_person_def get_setting_def over_quota_store_def
        full_store_def py_int_def digit_value_def)
  have b: "get_face_count 1 over_quota_store = 2"
    by (simp add: get_face_count_def person_images_def over_quota_store_def
        alice_sample_def alice_sample_2_def)
  have c: "length three_enrollments = 3" by (simp add: three_enrollments_def)
  have d: "map_option (get_face_count 1)
        (auto_train_all 1 ''alice'' three_enrollments over_quota_store) = Some 2"
    by code_simp
  have e: "max_images_per_person zero_quota_store = Inr 0"
    by (simp add: max_images_per_person_def get_setting_def zero_quota_store_def
        py_int_def digit_value_def)
  have f: "map_option (get_face_count 1)
        (auto_train_all 1 ''alice'' three_enrollments zero_quota_store) = Some 1"
    by code_simp
  from a b c d e f show ?thesis by simp
qed

subsection \<open>History ceiling\<close>


lemma remove_if_exists_simps [simp]:
  "persons (remove_if_exists p s) = persons s"
  "face_images (remove_if_exists p s) = face_images s"
  "recognition_history (remove_if_exists p s) = recognition_history s"
  "settings (remove_if_exists p s) = settings s"
  "face_images_seq (remove_if_exists p s) = face_images_seq s"
  "recognition_history_seq (remove_if_exists p s) = recognition_history_seq s"
  "undeletable (remove_if_exists p s) = undeletable s"
  by (cases p; auto simp: remove_if_exists_def os_remove_def)+

lemma files_remove_if_exists:
  "files (remove_if_exists p s) =
     (case p of None \<Rightarrow> files s
      | Some q \<Rightarrow> if q \<noteq> [] \<and> q \<notin> undeletable s then files s - {q} else files s)"
  by (cases p) (auto simp: remove_if_exists_def os_remove_def)

lemma files_remove_if_exists_subset: "files (remove_if_exists p s) \<subseteq> files s"
  by (auto simp: files_remove_if_exists split: option.splits if_splits)

lemma file_gone_remove_if_exists: "file_gone p (remove_if_exists p s)"
  by (cases p) (auto simp: file_gone_def files_remove_if_exists)

lemma file_gone_mono:
  "file_gone p s \<Longrightarrow> files s' \<subseteq> files s \<Longrightarrow> undeletable s' = undeletable s \<Longrightarrow> file_gone p s'"
  by (cases p) (auto simp: file_gone_def)

lemma media_gone_mono:
  "media_gone h s \<Longrightarrow> files s' \<subseteq> files s \<Longrightarrow> undeletable s' = undeletable s \<Longrightarrow> media_gone h s'"
  unfolding media_gone_def using file_gone_mono by blast

lemma remove_media_frame:
  "recognition_history (remove_media V s) = recognition_history s
   \<and> undeletable (remove_media V s) = undeletable s
   \<and> files (remove_media V s) \<subseteq> files s
   \<and> persons (remove_media V s) = persons s
   \<and> face_images (remove_media V s) = face_images s
   \<and> recognition_history_seq (remove_media V s) = recognition_history_seq s"
proof (induction V arbitrary: s)
  case Nil
  then show ?case by (simp add: remove_media_def)
next
  case (Cons v V)
  let ?s1 = "remove_if_exists (h_thumbnail_path v) (remove_if_exists (h_image_path v) s)"
  have eq: "remove_media (v # V) s = remove_media V ?s1" by (simp add: remove_media_def)
  have "files ?s1 \<subseteq> files s"
    using files_remove_if_exists_subset[of "h_thumbnail_path v" "remove_if_exists (h_image_path v) s"]
      files_remove_if_exists_subset[of "h_image_path v" s] by blast
  then show ?case using Cons.IH[of ?s1] unfolding eq by auto
qed

lemma remove_media_gone: "v \<in> set V \<Longrightarrow> media_gone v (remove_media V s)"
proof (induction V arbitrary: s)
  case Nil
  then show ?case by simp
next
  case (Cons a V)
  let ?s0 = "remove_if_exists (h_image_path a) s"
  let ?s1 = "remove_if_exists (h_thumbnail_path a) ?s0"
  have eq: "remove_media (a # V) s = remove_media V ?s1" by (simp add: remove_media_def)
  show ?case
  proof (cases "v = a")
    case True
    have g0: "file_gone (h_image_path a) ?s0" by (rule file_gone_remove_if_exists)
    have "file_gone (h_image_path a) ?s1"
      using g0 files_remove_if_exists_subset by (rule file_gone_mono) simp
    moreover have "file_gone (h_thumbnail_path a) ?s1" by (rule file_gone_remove_if_exists)
    ultimately have "media_gone a ?s1" by (simp add: media_gone_def)
    moreover have "files (remove_media V ?s1) \<subseteq> files ?s1"
        "undeletable (remove_media V ?s1) = undeletable ?s1"
      using remove_media_frame[of V ?s1] by simp_all
    ultimately have "media_gone a (remove_media V ?s1)"
      by (rule media_gone_mono)
    then show ?thesis using True eq by simp
  next
    case False
    then have "v \<in> set V" using Cons.prems by simp
    then show ?thesis using Cons.IH eq by simp
  qed
qed

lemma mset_filter_not_in_keys:
  assumes d: "distinct (map f xs)" and split: "mset xs = mset V + mset D"
  shows "mset (filter (\<lambda>x. f x \<notin> set (map f V)) xs) = mset D"
proof -
  have "mset (map f (V @ D)) = mset (map f xs)" using split by (metis mset_append mset_map)
  then have dd: "distinct (map f (V @ D))" using d mset_eq_imp_distinct_iff by blast
  have no: "\<And>x. x \<in> set D \<Longrightarrow> f x \<notin> set (map f V)" using dd by auto
  have "mset (filter (\<lambda>x. f x \<notin> set (map f V)) xs)
          = filter_mset (\<lambda>x. f x \<notin> set (map f V)) (mset V + mset D)"
    using split by (metis mset_filter)
  also have "\<dots> = filter_mset (\<lambda>x. f x \<notin> set (map f V)) (mset V)
                   + filter_mset (\<lambda>x. f x \<notin> set (map f V)) (mset D)" by simp
  also have "filter_mset (\<lambda>x. f x \<notin> set (map f V)) (mset V) = {#}"
    by simp
  also have "filter_mset (\<lambda>x. f x \<notin> set (map f V)) (mset D) = filter_mset (\<lambda>x. True) (mset D)"
    by (rule filter_mset_cong0) (use no in simp)
  finally show ?thesis by simp
qed

lemma take_sort_le_drop:
  assumes "v \<in> set (take n (sort_key f xs))" and "r \<in> set (drop n (sort_key f xs))"
  shows "f v \<le> f r"
proof -
  have "sorted (map f (take n (sort_key f xs) @ drop n (sort_key f xs)))" by simp
  then have "sorted (map f (take n (sort_key f xs)) @ map f (drop n (sort_key f xs)))"
    by (simp only: map_append)
  then show ?thesis using assms by (auto simp: sorted_append)
qed


lemma evict_oldest_generic:
  fixes key :: "'a \<Rightarrow> nat" and ident :: "'a \<Rightarrow> nat"
  assumes d: "distinct (map ident xs)"
    and V: "V = take n (sort_key key xs)"
    and R: "R = filter (\<lambda>h. ident h \<notin> set (map ident V)) xs"
  shows "mset xs = mset R + mset V"
    and "\<forall>v \<in> set V. \<forall>r \<in> set R. key v \<le> key r"
    and "length V = min n (length xs)"
    and "length R = length xs - n"
    and "distinct (map ident R)"
proof -
  define D where "D = drop n (sort_key key xs)"
  have "mset (take n (sort_key key xs)) + mset (drop n (sort_key key xs))
          = mset (take n (sort_key key xs) @ drop n (sort_key key xs))"
    by (simp only: mset_append)
  also have "\<dots> = mset (sort_key key xs)" by (simp only: append_take_drop_id)
  also have "\<dots> = mset xs" by (rule mset_sort)
  finally have split: "mset xs = mset V + mset D"
    unfolding V D_def by (rule sym)
  have ms: "mset R = mset D"
    unfolding R by (rule mset_filter_not_in_keys[OF d split])
  show "mset xs = mset R + mset V" using split ms by simp
  have set': "set R = set D" using ms by (rule mset_eq_setD)
  show "\<forall>v \<in> set V. \<forall>r \<in> set R. key v \<le> key r"
  proof (intro ballI)
    fix v r assume "v \<in> set V" and "r \<in> set R"
    then have "v \<in> set (take n (sort_key key xs))" "r \<in> set (drop n (sort_key key xs))"
      unfolding set' V D_def by simp_all
    then show "key v \<le> key r" by (rule take_sort_le_drop)
  qed
  show "length V = min n (length xs)" unfolding V by simp
  have "length R = length D" using ms by (rule mset_eq_length)
  then show "length R = length xs - n" unfolding D_def by simp
  show "distinct (map ident R)" unfolding R using d by (rule distinct_map_filter)
qed


lemma add_recognition_history_unfold:
  assumes ok: "add_recognition_history e C s = Inr (hid, s')"
  shows "\<exists>row. recorded_as e row \<and> h_id row = hid
           \<and> hid \<notin> set (map h_id (recognition_history s))
           \<and> s' = (let s1 = s\<lparr>recognition_history := recognition_history s @ [row],
                                recognition_history_seq := hid\<rparr>;
                        old_records = oldest_history
                           (nat (int (Suc (length (recognition_history s))) - C))
                           (recognition_history s @ [row])
                    in if int (Suc (length (recognition_history s))) > C
                       then (remove_media old_records s1)\<lparr>recognition_history :=
                              filter (\<lambda>h. h_id h \<notin> set (map h_id old_records))
                                (recognition_history (remove_media old_records s1))\<rparr>
                       else s1)"
proof -
  let ?row = "\<lparr>h_id = hid, h_person_id = n_person_id e,
                   h_person_name = Some (n_person_name e), h_nickname = n_nickname e,
                   h_score = n_score e, h_image_path = Some (n_image_path e),
                   h_thumbnail_path = Some (n_thumbnail_path e), h_bbox_info = n_bbox_info e,
                   h_timestamp = n_now e, h_trained_image_id = n_trained_image_id e\<rparr>"
  have hid: "hid = next_rowid (recognition_history_seq s) (map h_id (recognition_history s))"
    using ok by (simp add: add_recognition_history_def Let_def split: if_splits)
  have fresh: "hid \<notin> set (map h_id (recognition_history s))"
    using next_rowid_fresh[of hid "map h_id (recognition_history s)" "recognition_history_seq s"] hid
    by auto
  have rec: "recorded_as e ?row" "h_id ?row = hid" by (simp_all add: recorded_as_def)
  have "s' = (let s1 = s\<lparr>recognition_history := recognition_history s @ [?row],
                                recognition_history_seq := hid\<rparr>;
                        old_records = oldest_history
                           (nat (int (Suc (length (recognition_history s))) - C))
                           (recognition_history s @ [?row])
                    in if int (Suc (length (recognition_history s))) > C
                       then (remove_media old_records s1)\<lparr>recognition_history :=
                              filter (\<lambda>h. h_id h \<notin> set (map h_id old_records))
                                (recognition_history (remove_media old_records s1))\<rparr>
                       else s1)"
    using ok unfolding hid
    by (simp add: add_recognition_history_def Let_def split: if_splits)
  then show ?thesis using rec fresh by blast
qed

lemma add_recognition_history_step:
  assumes d: "distinct (map h_id (recognition_history s))" and C: "0 \<le> C"
    and ok: "add_recognition_history e C s = Inr (hid, s')"
  shows "\<exists>row V. recorded_as e row \<and> h_id row = hid
        \<and> mset (recognition_history s) + {#row#} = mset (recognition_history s') + mset V
        \<and> length V = Suc (length (recognition_history s)) - nat C
        \<and> (\<forall>v \<in> set V. \<forall>r \<in> set (recognition_history s'). h_timestamp v \<le> h_timestamp r)
        \<and> (\<forall>v \<in> set V. media_gone v s')
        \<and> distinct (map h_id (recognition_history s'))
        \<and> files s' \<subseteq> files s \<and> undeletable s' = undeletable s
        \<and> length (recognition_history s') = min (Suc (length (recognition_history s))) (nat C)"
proof -
  obtain row where row: "recorded_as e row" "h_id row = hid"
      "hid \<notin> set (map h_id (recognition_history s))"
      and s': "s' = (let s1 = s\<lparr>recognition_history := recognition_history s @ [row],
                                recognition_history_seq := hid\<rparr>;
                        old_records = oldest_history
                           (nat (int (Suc (length (recognition_history s))) - C))
                           (recognition_history s @ [row])
                    in if int (Suc (length (recognition_history s))) > C
                       then (remove_media old_records s1)\<lparr>recognition_history :=
                              filter (\<lambda>h. h_id h \<notin> set (map h_id old_records))
                                (recognition_history (remove_media old_records s1))\<rparr>
                       else s1)"
    using add_recognition_history_unfold[OF ok] by blast
  define xs where "xs = recognition_history s @ [row]"
  define s1 where "s1 = s\<lparr>recognition_history := xs, recognition_history_seq := hid\<rparr>"
  define n where "n = Suc (length (recognition_history s)) - nat C"
  define V where "V = take n (sort_key h_timestamp xs)"
  define R where "R = filter (\<lambda>h. h_id h \<notin> set (map h_id V)) xs"
  have d1: "distinct (map h_id xs)" using d row(2,3) by (simp add: xs_def)
  have lenxs: "length xs = Suc (length (recognition_history s))" by (simp add: xs_def)
  have nn: "nat (int (Suc (length (recognition_history s))) - C) = n" using C by (simp add: n_def)
  note gen = evict_oldest_generic[OF d1 V_def R_def]
  have msx: "mset (recognition_history s) + {#row#} = mset xs" by (simp add: xs_def)
  show ?thesis
  proof (cases "int (Suc (length (recognition_history s))) > C")
    case True
    have fr: "recognition_history (remove_media V s1) = xs"
        "files (remove_media V s1) \<subseteq> files s" "undeletable (remove_media V s1) = undeletable s"
      using remove_media_frame[of V s1] by (simp_all add: s1_def)
    have s'': "s' = (remove_media V s1)\<lparr>recognition_history := R\<rparr>"
      using s' True unfolding nn Let_def oldest_history_def xs_def[symmetric] s1_def[symmetric]
        V_def[symmetric] by (simp add: fr(1) R_def)
    have rows': "recognition_history s' = R" by (simp add: s'')
    have lenV: "length V = n" using gen(3) True C by (simp add: lenxs n_def)
    have mg: "\<forall>v \<in> set V. media_gone v s'"
    proof
      fix v assume "v \<in> set V"
      then have "media_gone v (remove_media V s1)" by (rule remove_media_gone)
      then show "media_gone v s'" by (rule media_gone_mono) (simp_all add: s'')
    qed
    have lenR: "length R = min (Suc (length (recognition_history s))) (nat C)"
      using gen(4) True C by (simp add: lenxs n_def)
    have "mset (recognition_history s) + {#row#} = mset (recognition_history s') + mset V"
      using gen(1) msx rows' by simp
    moreover have "length V = Suc (length (recognition_history s)) - nat C"
      using lenV by (simp add: n_def)
    moreover have "\<forall>v \<in> set V. \<forall>r \<in> set (recognition_history s'). h_timestamp v \<le> h_timestamp r"
      using gen(2) rows' by simp
    moreover have "distinct (map h_id (recognition_history s'))" using gen(5) rows' by simp
    moreover have "files s' \<subseteq> files s" "undeletable s' = undeletable s"
      using fr(2,3) by (simp_all add: s'')
    moreover have "length (recognition_history s') = min (Suc (length (recognition_history s))) (nat C)"
      using lenR rows' by simp
    ultimately show ?thesis using row(1,2) mg by blast
  next
    case False
    have s'': "s' = s1" using s' False unfolding Let_def xs_def[symmetric] s1_def[symmetric] by simp
    have rows': "recognition_history s' = xs" by (simp add: s'' s1_def)
    have "mset (recognition_history s) + {#row#} = mset (recognition_history s') + mset []"
      using msx rows' by simp
    moreover have "length ([]::history_record list) = Suc (length (recognition_history s)) - nat C"
      using False C by simp
    moreover have "distinct (map h_id (recognition_history s'))" using d1 rows' by simp
    moreover have "files s' \<subseteq> files s" "undeletable s' = undeletable s"
      by (simp_all add: s'' s1_def)
    moreover have "length (recognition_history s') = min (Suc (length (recognition_history s))) (nat C)"
      using False C by (simp add: rows' lenxs)
    ultimately show ?thesis using row(1,2)
      by (intro exI[of _ row] exI[of _ "[]"]) simp
  qed
qed


lemma add_all_history_inv:
  assumes "0 \<le> C" and "distinct (map h_id (recognition_history s))"
    and "add_all_history es C s = Inr s'"
    and "\<forall>x \<in># E. \<forall>r \<in> set (recognition_history s). h_timestamp x \<le> h_timestamp r"
    and "E \<noteq> {#} \<longrightarrow> nat C \<le> length (recognition_history s)"
    and "\<forall>x \<in># E. media_gone x s"
  shows "\<exists>news E'. list_all2 recorded_as es news
        \<and> mset (recognition_history s) + mset news + E = mset (recognition_history s') + E'
        \<and> (\<forall>x \<in># E'. \<forall>r \<in> set (recognition_history s'). h_timestamp x \<le> h_timestamp r)
        \<and> (\<forall>x \<in># E'. media_gone x s')
        \<and> length (recognition_history s') =
              (if es = [] then length (recognition_history s)
               else min (length (recognition_history s) + length es) (nat C))"
  using assms
proof (induction es arbitrary: s E)
  case Nil
  then show ?case by (intro exI[of _ "[]"] exI[of _ E]) simp
next
  case (Cons e es)
  let ?rows = "recognition_history s"
  obtain hid s1 where run: "add_recognition_history e C s = Inr (hid, s1)"
      and rest: "add_all_history es C s1 = Inr s'"
    using Cons.prems(3) by (auto split: sum.splits)
  obtain row V where st: "recorded_as e row"
      "mset ?rows + {#row#} = mset (recognition_history s1) + mset V"
      "length V = Suc (length ?rows) - nat C"
      "\<forall>v \<in> set V. \<forall>r \<in> set (recognition_history s1). h_timestamp v \<le> h_timestamp r"
      "\<forall>v \<in> set V. media_gone v s1"
      "distinct (map h_id (recognition_history s1))"
      "files s1 \<subseteq> files s" "undeletable s1 = undeletable s"
      "length (recognition_history s1) = min (Suc (length ?rows)) (nat C)"
    using add_recognition_history_step[OF Cons.prems(2,1) run] by blast
  define E1 where "E1 = E + mset V"
  have sub: "\<And>r. r \<in> set (recognition_history s1) \<Longrightarrow> r \<in> set ?rows \<or> r = row"
  proof -
    fix r assume "r \<in> set (recognition_history s1)"
    then have "r \<in># mset ?rows + {#row#}" unfolding st(2) by simp
    then show "r \<in> set ?rows \<or> r = row" by auto
  qed
  have subV: "\<And>v. v \<in> set V \<Longrightarrow> v \<in> set ?rows \<or> v = row"
  proof -
    fix v assume "v \<in> set V"
    then have "v \<in># mset ?rows + {#row#}" unfolding st(2) by simp
    then show "v \<in> set ?rows \<or> v = row" by auto
  qed
  have ord1: "\<forall>x \<in># E1. \<forall>r \<in> set (recognition_history s1). h_timestamp x \<le> h_timestamp r"
  proof (intro ballI)
    fix x r assume x: "x \<in># E1" and r: "r \<in> set (recognition_history s1)"
    show "h_timestamp x \<le> h_timestamp r"
    proof (cases "x \<in> set V")
      case True
      then show ?thesis using st(4) r by blast
    next
      case False
      then have xE: "x \<in># E" using x by (simp add: E1_def)
      show ?thesis
      proof (cases "r \<in> set ?rows")
        case True
        then show ?thesis using Cons.prems(4) xE by blast
      next
        case False
        then have rrow: "r = row" using sub[OF r] by simp
        have "nat C \<le> length ?rows" using Cons.prems(5) xE by auto
        then have "V \<noteq> []" using st(3) by auto
        then obtain v where v: "v \<in> set V" by (cases V) auto
        have "v \<noteq> row"
        proof
          assume "v = row"
          then have c2: "0 < count (mset V) row" using v by simp
          have c1: "0 < count (mset (recognition_history s1)) row" using r rrow by simp
          have "count (mset ?rows) row = 0" using False rrow by (simp add: count_eq_zero_iff)
          then have "count (mset ?rows + {#row#}) row = 1" by simp
          then have "count (mset (recognition_history s1) + mset V) row = 1"
            by (simp only: st(2))
          then show False using c1 c2 by simp
        qed
        then have "v \<in> set ?rows" using subV[OF v] by simp
        then have "h_timestamp x \<le> h_timestamp v" using Cons.prems(4) xE by blast
        also have "\<dots> \<le> h_timestamp r" using st(4) v r by blast
        finally show ?thesis .
      qed
    qed
  qed
  have full1: "E1 \<noteq> {#} \<longrightarrow> nat C \<le> length (recognition_history s1)"
  proof
    assume "E1 \<noteq> {#}"
    then have "E \<noteq> {#} \<or> V \<noteq> []" by (auto simp: E1_def)
    then have "nat C \<le> Suc (length ?rows)" using Cons.prems(5) st(3) by auto
    then show "nat C \<le> length (recognition_history s1)" using st(9) by simp
  qed
  have gone1: "\<forall>x \<in># E1. media_gone x s1"
  proof
    fix x assume "x \<in># E1"
    then consider "x \<in># E" | "x \<in> set V" by (auto simp: E1_def)
    then show "media_gone x s1"
    proof cases
      case 1
      then have "media_gone x s" using Cons.prems(6) by blast
      then show ?thesis using st(7,8) by (rule media_gone_mono)
    next
      case 2
      then show ?thesis using st(5) by blast
    qed
  qed
  obtain news E' where ih: "list_all2 recorded_as es news"
      "mset (recognition_history s1) + mset news + E1 = mset (recognition_history s') + E'"
      "\<forall>x \<in># E'. \<forall>r \<in> set (recognition_history s'). h_timestamp x \<le> h_timestamp r"
      "\<forall>x \<in># E'. media_gone x s'"
      "length (recognition_history s') =
              (if es = [] then length (recognition_history s1)
               else min (length (recognition_history s1) + length es) (nat C))"
    using Cons.IH[OF Cons.prems(1) st(6) rest ord1 full1 gone1] by blast
  have l2: "list_all2 recorded_as (e # es) (row # news)" using st(1) ih(1) by simp
  have "mset ?rows + mset (row # news) + E = (mset ?rows + {#row#}) + mset news + E" by simp
  also have "\<dots> = mset (recognition_history s1) + mset news + E1"
    unfolding st(2) E1_def by simp
  finally have ms: "mset ?rows + mset (row # news) + E = mset (recognition_history s') + E'"
    using ih(2) by simp
  have len: "length (recognition_history s') =
               min (length ?rows + length (e # es)) (nat C)"
    using ih(5) st(9) by (auto simp: min_def)
  show ?case using l2 ms ih(3,4) len by (intro exI[of _ "row # news"] exI[of _ E']) simp
qed


text \<open>
  Claim C4, as amended. Let the ceiling be \<open>C \<ge> 0\<close> and the ids of the table distinct
  (primary key). (1) After an append returns, at most \<open>C\<close> records remain; the records
  after the append and the evicted records \<open>V\<close> together are the records before plus
  the new one, \<open>V\<close> has \<open>count - C\<close> members when the count after the insert exceeds
  \<open>C\<close> and none otherwise, no evicted record has a later timestamp than a remaining
  one, and each evicted record's image and thumbnail file is gone unless its removal
  failed. (2) After more than \<open>C\<close> appends exactly \<open>C\<close> records remain; the initial
  and the appended records split into the remaining ones and evicted ones \<open>E\<close>, no
  evicted record is newer than a remaining one, and the media files of the evicted
  records are gone unless their removal failed.
\<close>

theorem history_ceiling:
  assumes "0 \<le> C" and "distinct (map h_id (recognition_history s))"
  shows
   "(\<forall>e hid s1. add_recognition_history e C s = Inr (hid, s1) \<longrightarrow>
        int (length (recognition_history s1)) \<le> C
      \<and> (\<exists>row V. recorded_as e row \<and> h_id row = hid
            \<and> mset (recognition_history s) + {#row#} = mset (recognition_history s1) + mset V
            \<and> length V = Suc (length (recognition_history s)) - nat C
            \<and> (\<forall>v \<in> set V. \<forall>r \<in> set (recognition_history s1).
                   h_timestamp v \<le> h_timestamp r)
            \<and> (\<forall>v \<in> set V. media_gone v s1)))
    \<and> (\<forall>es s'. add_all_history es C s = Inr s' \<and> C < int (length es) \<longrightarrow>
        int (length (recognition_history s')) = C
      \<and> (\<exists>news E. list_all2 recorded_as es news
            \<and> mset (recognition_history s) + mset news = mset (recognition_history s') + E
            \<and> (\<forall>x \<in># E. \<forall>r \<in> set (recognition_history s').
                   h_timestamp x \<le> h_timestamp r)
            \<and> (\<forall>x \<in># E. media_gone x s')))"
proof (intro conjI allI impI)
  fix e hid s1 assume ok: "add_recognition_history e C s = Inr (hid, s1)"
  obtain row V where st: "recorded_as e row" "h_id row = hid"
      "mset (recognition_history s) + {#row#} = mset (recognition_history s1) + mset V"
      "length V = Suc (length (recognition_history s)) - nat C"
      "\<forall>v \<in> set V. \<forall>r \<in> set (recognition_history s1). h_timestamp v \<le> h_timestamp r"
      "\<forall>v \<in> set V. media_gone v s1"
      "length (recognition_history s1) = min (Suc (length (recognition_history s))) (nat C)"
    using add_recognition_history_step[OF assms(2,1) ok] by blast
  show "int (length (recognition_history s1)) \<le> C" using st(7) assms(1) by simp
  show "\<exists>row V. recorded_as e row \<and> h_id row = hid
            \<and> mset (recognition_history s) + {#row#} = mset (recognition_history s1) + mset V
            \<and> length V = Suc (length (recognition_history s)) - nat C
            \<and> (\<forall>v \<in> set V. \<forall>r \<in> set (recognition_history s1).
                   h_timestamp v \<le> h_timestamp r)
            \<and> (\<forall>v \<in> set V. media_gone v s1)"
    using st(1-6) by blast
next
  fix es s' assume a: "add_all_history es C s = Inr s' \<and> C < int (length es)"
  then have run: "add_all_history es C s = Inr s'" and big: "C < int (length es)" by simp_all
  have e0: "\<forall>x \<in># ({#} :: history_record multiset).
              \<forall>r \<in> set (recognition_history s). h_timestamp x \<le> h_timestamp r" by simp
  have e1: "({#} :: history_record multiset) \<noteq> {#} \<longrightarrow> nat C \<le> length (recognition_history s)"
    by simp
  have e2: "\<forall>x \<in># ({#} :: history_record multiset). media_gone x s" by simp
  obtain news E where r: "list_all2 recorded_as es news"
      "mset (recognition_history s) + mset news + {#} = mset (recognition_history s') + E"
      "\<forall>x \<in># E. \<forall>r \<in> set (recognition_history s'). h_timestamp x \<le> h_timestamp r"
      "\<forall>x \<in># E. media_gone x s'"
      "length (recognition_history s') =
              (if es = [] then length (recognition_history s)
               else min (length (recognition_history s) + length es) (nat C))"
    using add_all_history_inv[OF assms(1,2) run e0 e1 e2] by blast
  have ne: "es \<noteq> []" using big assms(1) by auto
  show "int (length (recognition_history s')) = C" using r(5) ne big assms(1) by simp
  show "\<exists>news E. list_all2 recorded_as es news
            \<and> mset (recognition_history s) + mset news = mset (recognition_history s') + E
            \<and> (\<forall>x \<in># E. \<forall>r \<in> set (recognition_history s').
                   h_timestamp x \<le> h_timestamp r)
            \<and> (\<forall>x \<in># E. media_gone x s')"
    using r(1-4) by (intro exI[of _ news] exI[of _ E]) simp
qed

lemma two_sightings_run:
  "\<exists>s'. add_all_history [second_sighting, third_sighting] 1 small_store = Inr s'"
proof -
  have "case add_all_history [second_sighting, third_sighting] 1 small_store of
          Inl err \<Rightarrow> False | Inr s' \<Rightarrow> True"
    by code_simp
  then show ?thesis
    by (cases "add_all_history [second_sighting, third_sighting] 1 small_store") auto
qed

theorem history_ceiling_witness:
  "\<exists>s'. add_all_history [second_sighting, third_sighting] 1 small_store = Inr s'
     \<and> int (length (recognition_history s')) = 1"
proof -
  obtain s' where run: "add_all_history [second_sighting, third_sighting] 1 small_store = Inr s'"
    using two_sightings_run by blast
  have c: "(0::int) \<le> 1" by simp
  have d: "distinct (map h_id (recognition_history small_store))" by (simp add: small_store_def)
  have pre: "add_all_history [second_sighting, third_sighting] 1 small_store = Inr s'
          \<and> (1::int) < int (length [second_sighting, third_sighting])"
    using run by simp
  from history_ceiling[OF c d] pre
  have "int (length (recognition_history s')) = 1" by blast
  then show ?thesis using run by blast
qed

text \<open>
  Claim C4 as stated fails where a media file cannot be removed: the append with
  ceiling 1 evicts record 1 and removes its thumbnail, while its image file, whose
  removal raises, is still on disk.
\<close>

theorem history_eviction_leaves_file:
  "\<not> isl (add_recognition_history second_sighting 1 locked_log_store)
   \<and> map h_id (recognition_history (snd (projr (add_recognition_history second_sighting 1
        locked_log_store)))) = [2]
   \<and> h_image_path alice_seen = Some ''static/logs/log_t1.jpg''
   \<and> ''static/logs/log_t1.jpg'' \<in> files (snd (projr (add_recognition_history second_sighting 1
        locked_log_store)))
   \<and> ''static/logs/thumb_t1.jpg'' \<notin> files (snd (projr (add_recognition_history second_sighting 1
        locked_log_store)))"
  by (simp add: add_recognition_history_def second_sighting_def locked_log_store_def
      small_store_def alice_def alice_seen_def alice_sample_def next_rowid_def Let_def
      oldest_history_def remove_media_def remove_if_exists_def os_remove_def)

end
